theory Spec2Isabelle
  imports Main "HOL-Library.AList"
begin

section \<open>Python values used by both modules\<close>

text \<open>
  A Python \<open>str\<close> is a \<open>string\<close>; iterating over it or indexing it yields strings of
  length one. A Python \<open>set\<close> is a list without repetitions whose order is the order of
  iteration; a \<open>dict\<close> is an association list with distinct keys in insertion order.
  Reading a dict at an absent key raises \<open>KeyError\<close>; reading a local variable that was
  never assigned raises \<open>UnboundLocalError\<close>.
\<close>

datatype error = KeyError | UnboundLocalError

definition set_add :: "'a \<Rightarrow> 'a list \<Rightarrow> 'a list" where
  "set_add x xs = (if x \<in> set xs then xs else xs @ [x])"

definition getitem :: "('k \<times> 'v) list \<Rightarrow> 'k \<Rightarrow> error + 'v" where
  "getitem d k = (case map_of d k of None \<Rightarrow> Inl KeyError | Some v \<Rightarrow> Inr v)"

definition get_default :: "('k \<times> 'v) list \<Rightarrow> 'k \<Rightarrow> 'v \<Rightarrow> 'v" where
  "get_default d k v0 = (case map_of d k of None \<Rightarrow> v0 | Some v \<Rightarrow> v)"

definition setitem :: "'k \<Rightarrow> 'v \<Rightarrow> ('k \<times> 'v) list \<Rightarrow> ('k \<times> 'v) list" where
  "setitem k v d = AList.update k v d"

definition has_key :: "('k \<times> 'v) list \<Rightarrow> 'k \<Rightarrow> bool" where
  "has_key d k = (map_of d k \<noteq> None)"

text \<open>\<open>d[k].append(v)\<close>: the list stored at \<open>k\<close> grows in place.\<close>

definition append_item :: "'k \<Rightarrow> 'v \<Rightarrow> ('k \<times> 'v list) list \<Rightarrow> error + ('k \<times> 'v list) list" where
  "append_item k v d =
     (case getitem d k of Inl e \<Rightarrow> Inl e | Inr vs \<Rightarrow> Inr (setitem k (vs @ [v]) d))"

text \<open>\<open>if v not in d[k]: d[k].append(v)\<close>\<close>

definition append_new :: "'k \<Rightarrow> 'v \<Rightarrow> ('k \<times> 'v list) list \<Rightarrow> error + ('k \<times> 'v list) list" where
  "append_new k v d =
     (case getitem d k of
        Inl e \<Rightarrow> Inl e
      | Inr vs \<Rightarrow> if v \<in> set vs then Inr d else Inr (setitem k (vs @ [v]) d))"

text \<open>A \<open>for\<close> loop whose body may raise: the first error ends the loop.\<close>

fun for_each :: "('a \<Rightarrow> 's \<Rightarrow> error + 's) \<Rightarrow> 'a list \<Rightarrow> 's \<Rightarrow> error + 's" where
  "for_each body [] s = Inr s"
| "for_each body (x # xs) s =
     (case body x s of Inl e \<Rightarrow> Inl e | Inr s' \<Rightarrow> for_each body xs s')"

text \<open>\<open>str(n)\<close> for a non-negative integer: its decimal digits.\<close>

definition digit_char :: "nat \<Rightarrow> char" where
  "digit_char d = ''0123456789'' ! d"

fun str_nat :: "nat \<Rightarrow> string" where
  "str_nat n =
     (if n < 10 then [digit_char n] else str_nat (n div 10) @ [digit_char (n mod 10)])"

declare str_nat.simps [simp del]

definition digit_val :: "char \<Rightarrow> nat" where
  "digit_val c = of_char c - 48"

definition nat_of_str :: "string \<Rightarrow> nat" where
  "nat_of_str s = foldl (\<lambda>a c. 10 * a + digit_val c) 0 s"

lemma digit_val_digit_char: "d < 10 \<Longrightarrow> digit_val (digit_char d) = d"
proof -
  assume "d < 10"
  then have "d \<in> {0, 1, 2, 3, 4, 5, 6, 7, 8, 9}" by auto
  then show ?thesis
    by (auto simp: digit_val_def digit_char_def)
qed

lemma nat_of_str_snoc: "nat_of_str (s @ [c]) = 10 * nat_of_str s + digit_val c"
  by (simp add: nat_of_str_def)

lemma nat_of_str_str_nat: "nat_of_str (str_nat n) = n"
proof (induction n rule: str_nat.induct)
  case (1 n)
  show ?case
  proof (cases "n < 10")
    case True
    then show ?thesis
      by (simp add: str_nat.simps [of n] nat_of_str_def digit_val_digit_char)
  next
    case False
    with 1 have "nat_of_str (str_nat (n div 10)) = n div 10" by simp
    with False show ?thesis
      by (simp add: str_nat.simps [of n] nat_of_str_snoc digit_val_digit_char)
  qed
qed

lemma str_nat_inj: "str_nat m = str_nat n \<Longrightarrow> m = n"
  by (metis nat_of_str_str_nat)

section \<open>cfg\_to\_cnf.py\<close>

record CFG =
  variables :: "string list"
  terminals :: "string list"
  productions :: "(string \<times> string list) list"
  start_symbol :: string

text \<open>
  The converter keeps a reference to the grammar it was given: \<open>cfg\<close> is the caller's
  object, so a change of \<open>cfg\<close> in the converter returned by an operation is a change of
  the caller's grammar.
\<close>

record CNFConverter =
  cfg :: CFG
  new_var_counter :: nat
  terminal_to_var :: "(string \<times> string) list"

definition CNFConverter_init :: "CFG \<Rightarrow> CNFConverter" where
  "CNFConverter_init g = \<lparr>cfg = g, new_var_counter = 0, terminal_to_var = []\<rparr>"

function generate_new_variable :: "CNFConverter \<Rightarrow> string \<times> CNFConverter" where
  "generate_new_variable self =
     (if ''X'' @ str_nat (new_var_counter self) \<in> set (variables (cfg self))
      then generate_new_variable (self\<lparr>new_var_counter := new_var_counter self + 1\<rparr>)
      else (''X'' @ str_nat (new_var_counter self),
            self\<lparr>new_var_counter := new_var_counter self + 1\<rparr>))"
  by pat_completeness auto

definition taken_from :: "CNFConverter \<Rightarrow> nat set" where
  "taken_from self =
     {k. new_var_counter self \<le> k \<and> ''X'' @ str_nat k \<in> set (variables (cfg self))}"

lemma finite_taken_from: "finite (taken_from self)"
proof -
  have "inj (\<lambda>k. ''X'' @ str_nat k)"
    by (auto simp: inj_def dest: str_nat_inj)
  then have "finite ((\<lambda>k. ''X'' @ str_nat k) -` set (variables (cfg self)))"
    by (simp add: finite_vimageI)
  moreover have "taken_from self \<subseteq> (\<lambda>k. ''X'' @ str_nat k) -` set (variables (cfg self))"
    by (auto simp: taken_from_def)
  ultimately show ?thesis
    by (rule rev_finite_subset)
qed

termination generate_new_variable
proof (relation "measure (\<lambda>self. card (taken_from self))")
  show "wf (measure (\<lambda>self. card (taken_from self)))" by simp
next
  fix self :: CNFConverter
  assume taken: "''X'' @ str_nat (new_var_counter self) \<in> set (variables (cfg self))"
  let ?self' = "self\<lparr>new_var_counter := new_var_counter self + 1\<rparr>"
  have "new_var_counter self \<in> taken_from self"
    using taken by (simp add: taken_from_def)
  moreover have "new_var_counter self \<notin> taken_from ?self'"
    by (simp add: taken_from_def)
  moreover have "taken_from ?self' \<subseteq> taken_from self"
    by (auto simp: taken_from_def)
  ultimately have "taken_from ?self' \<subset> taken_from self" by blast
  then have "card (taken_from ?self') < card (taken_from self)"
    by (simp add: psubset_card_mono finite_taken_from)
  then show "(?self', self) \<in> measure (\<lambda>self. card (taken_from self))" by simp
qed

declare generate_new_variable.simps [simp del]

subsection \<open>Stage 1: eliminate\_epsilon\_productions\<close>

text \<open>
  One pass of the \<open>for\<close> loop over \<open>self.cfg.productions.items()\<close> inside the
  \<open>while True\<close> loop: the nullable set and the flag \<open>nullable_added\<close>.
\<close>

fun nullable_pass ::
  "(string \<times> string list) list \<Rightarrow> string list \<Rightarrow> bool \<Rightarrow> string list \<times> bool" where
  "nullable_pass [] nullable nullable_added = (nullable, nullable_added)"
| "nullable_pass ((var, prods) # rest) nullable nullable_added =
     (if var \<in> set nullable then nullable_pass rest nullable nullable_added
      else if '''' \<in> set prods then nullable_pass rest (set_add var nullable) True
      else if list_ex (\<lambda>prd. list_all (\<lambda>symbol. [symbol] \<in> set nullable) prd) prods
        then nullable_pass rest (set_add var nullable) True
      else nullable_pass rest nullable nullable_added)"

lemma nullable_pass_grows:
  "nullable_pass items n b = (n', b') \<Longrightarrow>
     set n \<subseteq> set n' \<and> set n' \<subseteq> set n \<union> fst ` set items \<and> (b' \<and> \<not> b \<longrightarrow> set n \<noteq> set n')"
proof (induction items n b arbitrary: n' b' rule: nullable_pass.induct)
  case (1 nullable nullable_added)
  then show ?case by simp
next
  case (2 var prods rest nullable nullable_added)
  show ?case
  proof (cases "var \<in> set nullable")
    case True
    with 2 show ?thesis by auto
  next
    case notin: False
    show ?thesis
    proof (cases "'''' \<in> set prods \<or>
        list_ex (\<lambda>prd. list_all (\<lambda>symbol. [symbol] \<in> set nullable) prd) prods")
      case True
      with notin "2.prems" have run: "nullable_pass rest (set_add var nullable) True = (n', b')"
        by (auto split: if_splits)
      have "set (set_add var nullable) \<subseteq> set n' \<and>
          set n' \<subseteq> set (set_add var nullable) \<union> fst ` set rest"
      proof (cases "'''' \<in> set prods")
        case True
        from "2.IH"(2) [OF notin True run] show ?thesis by blast
      next
        case False
        with True have ex: "list_ex (\<lambda>prd. list_all (\<lambda>symbol. [symbol] \<in> set nullable) prd) prods"
          by simp
        from "2.IH"(3) [OF notin False ex run] show ?thesis by blast
      qed
      with notin show ?thesis
        by (auto simp: set_add_def)
    next
      case False
      with notin "2.prems" have run: "nullable_pass rest nullable nullable_added = (n', b')"
        by (auto split: if_splits)
      from False have a: "'''' \<notin> set prods"
        and b: "\<not> list_ex (\<lambda>prd. list_all (\<lambda>symbol. [symbol] \<in> set nullable) prd) prods"
        by auto
      from "2.IH"(4) [OF notin a b run] show ?thesis by auto
    qed
  qed
qed

function compute_nullable :: "(string \<times> string list) list \<Rightarrow> string list \<Rightarrow> string list" where
  "compute_nullable items nullable =
     (case nullable_pass items nullable False of
        (nullable', nullable_added) \<Rightarrow>
          if nullable_added then compute_nullable items nullable' else nullable')"
  by pat_completeness auto

termination compute_nullable
proof (relation "measure (\<lambda>(items, nullable). card (fst ` set items - set nullable))")
  show "wf (measure (\<lambda>(items, nullable). card (fst ` set items - set nullable)))" by simp
next
  fix items :: "(string \<times> string list) list" and nullable x1 :: "string list" and x2 :: bool
  assume "(x1, x2) = nullable_pass items nullable False" and x2
  then have grow: "set nullable \<subseteq> set x1" "set x1 \<subseteq> set nullable \<union> fst ` set items"
      "set nullable \<noteq> set x1"
    using nullable_pass_grows [of items nullable False x1 x2] by auto
  then have "fst ` set items - set x1 \<subset> fst ` set items - set nullable" by blast
  then have "card (fst ` set items - set x1) < card (fst ` set items - set nullable)"
    by (simp add: psubset_card_mono)
  then show "((items, x1), (items, nullable))
      \<in> measure (\<lambda>(items, nullable). card (fst ` set items - set nullable))" by simp
qed

declare compute_nullable.simps [simp del]

definition nullable_indices :: "string \<Rightarrow> string list \<Rightarrow> nat list" where
  "nullable_indices prd nullable = filter (\<lambda>i. [prd ! i] \<in> set nullable) [0..<length prd]"

text \<open>The positions \<open>idx\<close> with \<open>(i >> j) & 1\<close>, for \<open>j, idx in enumerate(nullable_indices)\<close>.\<close>

definition omit_indices :: "nat \<Rightarrow> nat list \<Rightarrow> nat list" where
  "omit_indices i idxs = map (\<lambda>j. idxs ! j) (filter (\<lambda>j. odd (i div 2 ^ j)) [0..<length idxs])"

definition omit_symbols :: "string \<Rightarrow> nat list \<Rightarrow> string" where
  "omit_symbols prd omit = map (\<lambda>j. prd ! j) (filter (\<lambda>j. j \<notin> set omit) [0..<length prd])"

definition add_combination ::
  "string \<Rightarrow> string \<Rightarrow> string list \<Rightarrow> nat \<Rightarrow> (string \<times> string list) list
     \<Rightarrow> error + (string \<times> string list) list" where
  "add_combination var prd nullable i new_productions =
     (let new_prod = omit_symbols prd (omit_indices i (nullable_indices prd nullable))
      in if new_prod = '''' then Inr new_productions
         else append_new var new_prod new_productions)"

definition expand_production ::
  "string \<Rightarrow> string list \<Rightarrow> string \<Rightarrow> (string \<times> string list) list
     \<Rightarrow> error + (string \<times> string list) list" where
  "expand_production var nullable prd new_productions =
     (if prd = '''' then Inr new_productions
      else for_each (add_combination var prd nullable)
             [0..<2 ^ length (nullable_indices prd nullable)] new_productions)"

definition expand_variable ::
  "string list \<Rightarrow> string \<times> string list \<Rightarrow> (string \<times> string list) list
     \<Rightarrow> error + (string \<times> string list) list" where
  "expand_variable nullable item new_productions =
     for_each (expand_production (fst item) nullable) (snd item) new_productions"

definition eliminate_epsilon_productions :: "CNFConverter \<Rightarrow> error + CFG \<times> CNFConverter" where
  "eliminate_epsilon_productions self =
     (let nullable = compute_nullable (productions (cfg self)) []
      in case for_each (expand_variable nullable) (productions (cfg self))
                (map (\<lambda>var. (var, [])) (variables (cfg self))) of
           Inl e \<Rightarrow> Inl e
         | Inr new_productions \<Rightarrow>
             if start_symbol (cfg self) \<in> set nullable
             then (case generate_new_variable self of
                     (new_start, self1) \<Rightarrow>
                       let self2 = self1\<lparr>cfg := (cfg self1)
                              \<lparr>variables := set_add new_start (variables (cfg self1))\<rparr>\<rparr>
                       in Inr (\<lparr>variables = variables (cfg self2),
                                terminals = terminals (cfg self2),
                                productions = setitem new_start ['''', start_symbol (cfg self2)]
                                                new_productions,
                                start_symbol = new_start\<rparr>, self2))
             else Inr (\<lparr>variables = variables (cfg self),
                        terminals = terminals (cfg self),
                        productions = new_productions,
                        start_symbol = start_symbol (cfg self)\<rparr>, self))"

subsection \<open>Stage 2: eliminate\_unit\_productions\<close>

text \<open>
  The closure loop. \<open>unit_pairs\<close> maps every variable to a set; the flag is \<open>changed\<close>.
  The test \<open>prod in vars and prod not in unit_pairs[A]\<close> reads the dict only when its
  first half holds.
\<close>

definition unit_prod ::
  "string list \<Rightarrow> string \<Rightarrow> string \<Rightarrow> (string \<times> string list) list \<times> bool
     \<Rightarrow> error + (string \<times> string list) list \<times> bool" where
  "unit_prod vars A prd st =
     (if prd \<in> set vars
      then (case getitem (fst st) A of
              Inl e \<Rightarrow> Inl e
            | Inr s \<Rightarrow>
                if prd \<in> set s then Inr st
                else Inr (setitem A (set_add prd s) (fst st), True))
      else Inr st)"

definition unit_B ::
  "(string \<times> string list) list \<Rightarrow> string list \<Rightarrow> string \<Rightarrow> string
     \<Rightarrow> (string \<times> string list) list \<times> bool \<Rightarrow> error + (string \<times> string list) list \<times> bool" where
  "unit_B prods vars A B st = for_each (unit_prod vars A) (get_default prods B []) st"

text \<open>\<open>for B in list(unit_pairs[A])\<close> runs over a copy taken before the inner loops.\<close>

definition unit_A ::
  "(string \<times> string list) list \<Rightarrow> string list \<Rightarrow> string
     \<Rightarrow> (string \<times> string list) list \<times> bool \<Rightarrow> error + (string \<times> string list) list \<times> bool" where
  "unit_A prods vars A st =
     (case getitem (fst st) A of
        Inl e \<Rightarrow> Inl e
      | Inr s \<Rightarrow> for_each (unit_B prods vars A) s st)"

definition unit_pass ::
  "(string \<times> string list) list \<Rightarrow> string list \<Rightarrow> (string \<times> string list) list
     \<Rightarrow> error + (string \<times> string list) list \<times> bool" where
  "unit_pass prods vars unit_pairs = for_each (unit_A prods vars) vars (unit_pairs, False)"

text \<open>The pairs \<open>(A, x)\<close> with \<open>x in unit_pairs[A]\<close>, and what one step of a loop does to them.\<close>

definition covered :: "(string \<times> string list) list \<Rightarrow> (string \<times> string) set" where
  "covered d = {(A, x). \<exists>s. map_of d A = Some s \<and> x \<in> set s}"

definition unit_grows ::
  "string list \<Rightarrow> (string \<times> string list) list \<times> bool \<Rightarrow> (string \<times> string list) list \<times> bool \<Rightarrow> bool" where
  "unit_grows vars st st' \<longleftrightarrow>
     covered (fst st) \<subseteq> covered (fst st') \<and>
     (snd st' \<longrightarrow> snd st \<or> (\<exists>p \<in> set vars \<times> set vars. p \<in> covered (fst st') \<and> p \<notin> covered (fst st)))"

lemma unit_grows_refl: "unit_grows vars st st"
  by (simp add: unit_grows_def)

lemma unit_grows_trans: "unit_grows vars a b \<Longrightarrow> unit_grows vars b c \<Longrightarrow> unit_grows vars a c"
  unfolding unit_grows_def by blast

lemma for_each_rel:
  assumes "for_each body xs s = Inr s'"
    and "\<And>x t t'. x \<in> set xs \<Longrightarrow> body x t = Inr t' \<Longrightarrow> R t t'"
    and "\<And>t. R t t"
    and "\<And>a b c. R a b \<Longrightarrow> R b c \<Longrightarrow> R a c"
  shows "R s s'"
  using assms(1,2)
proof (induction xs arbitrary: s)
  case Nil
  then show ?case using assms(3) by simp
next
  case (Cons x xs)
  from Cons.prems(1) obtain t where t: "body x s = Inr t" and rest: "for_each body xs t = Inr s'"
    by (auto split: sum.splits)
  have "R s t" using Cons.prems(2) [of x s t] t by simp
  moreover have "R t s'"
  proof (rule Cons.IH [OF rest])
    fix y u u' assume "y \<in> set xs" "body y u = Inr u'"
    then show "R u u'" using Cons.prems(2) [of y u u'] by simp
  qed
  ultimately show ?case using assms(4) by blast
qed

lemma covered_setitem:
  "map_of d A = Some s \<Longrightarrow> set s \<subseteq> set s' \<Longrightarrow> covered d \<subseteq> covered (setitem A s' d)"
  by (fastforce simp: covered_def setitem_def update_conv')

lemma unit_prod_grows:
  assumes "unit_prod vars A prd st = Inr st'" and "A \<in> set vars"
  shows "unit_grows vars st st'"
proof (cases "prd \<in> set vars")
  case False
  with assms show ?thesis by (simp add: unit_prod_def unit_grows_refl)
next
  case True
  with assms obtain s where s: "map_of (fst st) A = Some s"
    by (auto simp: unit_prod_def getitem_def split: option.splits)
  show ?thesis
  proof (cases "prd \<in> set s")
    case True
    with assms s \<open>prd \<in> set vars\<close> show ?thesis
      by (simp add: unit_prod_def getitem_def unit_grows_refl)
  next
    case False
    with assms s \<open>prd \<in> set vars\<close>
    have st': "st' = (setitem A (set_add prd s) (fst st), True)"
      by (simp add: unit_prod_def getitem_def)
    have "set s \<subseteq> set (set_add prd s)"
      by (auto simp: set_add_def)
    then have "covered (fst st) \<subseteq> covered (fst st')"
      unfolding st' fst_conv by (rule covered_setitem [OF s])
    moreover have "(A, prd) \<in> covered (fst st')"
      by (simp add: st' covered_def setitem_def update_conv' set_add_def)
    moreover have "(A, prd) \<notin> covered (fst st)"
      using s False by (simp add: covered_def)
    ultimately show ?thesis
      using \<open>prd \<in> set vars\<close> \<open>A \<in> set vars\<close> unfolding unit_grows_def by blast
  qed
qed

lemma unit_B_grows:
  assumes "unit_B prods vars A B st = Inr st'" and "A \<in> set vars"
  shows "unit_grows vars st st'"
  using assms(1) unfolding unit_B_def
  by (rule for_each_rel) (auto intro: unit_prod_grows assms(2) unit_grows_refl unit_grows_trans)

lemma unit_A_grows:
  assumes "unit_A prods vars A st = Inr st'" and "A \<in> set vars"
  shows "unit_grows vars st st'"
proof -
  from assms(1) obtain s where "for_each (unit_B prods vars A) s st = Inr st'"
    by (auto simp: unit_A_def split: sum.splits)
  then show ?thesis
    by (rule for_each_rel) (auto intro: unit_B_grows assms(2) unit_grows_refl unit_grows_trans)
qed

lemma unit_pass_grows:
  assumes "unit_pass prods vars unit_pairs = Inr st'"
  shows "unit_grows vars (unit_pairs, False) st'"
  using assms unfolding unit_pass_def
  by (rule for_each_rel) (auto intro: unit_A_grows unit_grows_refl unit_grows_trans)

function unit_closure ::
  "(string \<times> string list) list \<Rightarrow> string list \<Rightarrow> (string \<times> string list) list
     \<Rightarrow> error + (string \<times> string list) list" where
  "unit_closure prods vars unit_pairs =
     (case unit_pass prods vars unit_pairs of
        Inl e \<Rightarrow> Inl e
      | Inr (unit_pairs', changed) \<Rightarrow>
          if changed then unit_closure prods vars unit_pairs' else Inr unit_pairs')"
  by pat_completeness auto

termination unit_closure
proof (relation "measure (\<lambda>(prods, vars, unit_pairs).
                   card (set vars \<times> set vars - covered unit_pairs))")
  show "wf (measure (\<lambda>(prods, vars, unit_pairs).
              card (set vars \<times> set vars - covered unit_pairs)))" by simp
next
  fix prods :: "(string \<times> string list) list" and vars :: "string list"
    and unit_pairs :: "(string \<times> string list) list" and b x1 x2
  assume "unit_pass prods vars unit_pairs = Inr b" and "(x1, x2) = b" and x2
  then have "unit_grows vars (unit_pairs, False) (x1, True)"
    using unit_pass_grows [of prods vars unit_pairs b] by auto
  then have "set vars \<times> set vars - covered x1 \<subset> set vars \<times> set vars - covered unit_pairs"
    unfolding unit_grows_def by auto
  then have "card (set vars \<times> set vars - covered x1)
      < card (set vars \<times> set vars - covered unit_pairs)"
    by (simp add: psubset_card_mono)
  then show "((prods, vars, x1), (prods, vars, unit_pairs))
      \<in> measure (\<lambda>(prods, vars, unit_pairs). card (set vars \<times> set vars - covered unit_pairs))"
    by simp
qed

declare unit_closure.simps [simp del]

text \<open>The second half: the bodies of every \<open>B in unit_pairs[A]\<close> that are not variables.\<close>

definition unit_add_prod ::
  "string list \<Rightarrow> string \<Rightarrow> string \<Rightarrow> (string \<times> string list) list
     \<Rightarrow> error + (string \<times> string list) list" where
  "unit_add_prod vars A prd new_productions =
     (if prd \<in> set vars then Inr new_productions else append_new A prd new_productions)"

definition unit_add_B ::
  "(string \<times> string list) list \<Rightarrow> string list \<Rightarrow> string \<Rightarrow> string
     \<Rightarrow> (string \<times> string list) list \<Rightarrow> error + (string \<times> string list) list" where
  "unit_add_B prods vars A B new_productions =
     for_each (unit_add_prod vars A) (get_default prods B []) new_productions"

definition unit_add_A ::
  "(string \<times> string list) list \<Rightarrow> string list \<Rightarrow> (string \<times> string list) list \<Rightarrow> string
     \<Rightarrow> (string \<times> string list) list \<Rightarrow> error + (string \<times> string list) list" where
  "unit_add_A prods vars unit_pairs A new_productions =
     (case getitem unit_pairs A of
        Inl e \<Rightarrow> Inl e
      | Inr s \<Rightarrow> for_each (unit_add_B prods vars A) s new_productions)"

definition eliminate_unit_productions :: "CNFConverter \<Rightarrow> error + CFG" where
  "eliminate_unit_productions self =
     (let vars = variables (cfg self); prods = productions (cfg self)
      in case unit_closure prods vars (map (\<lambda>var. (var, [var])) vars) of
           Inl e \<Rightarrow> Inl e
         | Inr unit_pairs \<Rightarrow>
             (case for_each (unit_add_A prods vars unit_pairs) vars
                     (map (\<lambda>var. (var, [])) vars) of
                Inl e \<Rightarrow> Inl e
              | Inr new_productions \<Rightarrow>
                  Inr \<lparr>variables = vars, terminals = terminals (cfg self),
                       productions = new_productions,
                       start_symbol = start_symbol (cfg self)\<rparr>))"

subsection \<open>convert\_to\_cnf\<close>

text \<open>
  The first two statements of \<open>convert_to_cnf\<close>. Both stages read \<open>self.cfg\<close>; the
  grammar returned by the first stage is bound to \<open>cfg\<close> and overwritten by the second.
\<close>

definition first_two_stages :: "CNFConverter \<Rightarrow> error + CFG \<times> CNFConverter" where
  "first_two_stages self =
     (case eliminate_epsilon_productions self of
        Inl e \<Rightarrow> Inl e
      | Inr (cfg0, self1) \<Rightarrow>
          (case eliminate_unit_productions self1 of
             Inl e \<Rightarrow> Inl e
           | Inr cfg1 \<Rightarrow> Inr (cfg1, self1)))"

text \<open>
  The local variables of \<open>convert_to_cnf\<close> that its loops change: the converter, the
  copies \<open>variables\<close> and \<open>productions\<close>, \<open>final_productions\<close> and \<open>prev_var\<close>
  (unassigned until the first chain step).
\<close>

record cnf_locals =
  lself :: CNFConverter
  lvariables :: "string list"
  lproductions :: "(string \<times> string list) list"
  lfinal_productions :: "(string \<times> string list) list"
  lprev_var :: "string option"

text \<open>Step 3, the body of \<open>for symbol in prod\<close>; the state carries \<open>new_prod\<close>.\<close>

definition replace_symbol ::
  "string list \<Rightarrow> string \<Rightarrow> cnf_locals \<times> string \<Rightarrow> error + cnf_locals \<times> string" where
  "replace_symbol terms symbol st =
     (let L = fst st; new_prod = snd st
      in if symbol \<in> set terms
         then (let L1 =
                 (if has_key (terminal_to_var (lself L)) symbol then L
                  else (case generate_new_variable (lself L) of
                          (new_var, self1) \<Rightarrow>
                            L\<lparr>lself := self1\<lparr>terminal_to_var :=
                                          setitem symbol new_var (terminal_to_var self1)\<rparr>,
                              lvariables := set_add new_var (lvariables L),
                              lproductions := setitem new_var [symbol] (lproductions L)\<rparr>))
               in case getitem (terminal_to_var (lself L1)) symbol of
                    Inl e \<Rightarrow> Inl e
                  | Inr v \<Rightarrow> Inr (L1, new_prod @ v))
         else Inr (L, new_prod @ symbol))"

text \<open>The body of \<open>for prod in prods\<close>; the state carries \<open>new_prods\<close>.\<close>

definition isolate_prod ::
  "string list \<Rightarrow> string \<Rightarrow> cnf_locals \<times> string list \<Rightarrow> error + cnf_locals \<times> string list" where
  "isolate_prod terms prd st =
     (let L = fst st; new_prods = snd st
      in if length prd \<le> 1 \<or>
            (length prd = 2 \<and> [prd ! 0] \<in> set (lvariables L) \<and> [prd ! 1] \<in> set (lvariables L))
         then Inr st
         else (case for_each (replace_symbol terms) (map (\<lambda>c. [c]) prd) (L, '''') of
                 Inl e \<Rightarrow> Inl e
               | Inr (L', new_prod) \<Rightarrow> Inr (L', new_prods @ [new_prod])))"

definition add_isolated :: "string \<Rightarrow> string \<Rightarrow> cnf_locals \<Rightarrow> error + cnf_locals" where
  "add_isolated var prd L =
     (case append_new var prd (lproductions L) of
        Inl e \<Rightarrow> Inl e
      | Inr d \<Rightarrow> Inr (L\<lparr>lproductions := d\<rparr>))"

definition isolate_var ::
  "string list \<Rightarrow> string \<times> string list \<Rightarrow> cnf_locals \<Rightarrow> error + cnf_locals" where
  "isolate_var terms item L =
     (case for_each (isolate_prod terms) (snd item) (L, []) of
        Inl e \<Rightarrow> Inl e
      | Inr (L1, new_prods) \<Rightarrow> for_each (add_isolated (fst item)) new_prods L1)"

text \<open>
  Step 4, the body of \<open>for i in range(len(prod) - 2)\<close>; the state carries
  \<open>current_var\<close>. It runs only for \<open>len(prod) > 2\<close>, where \<open>prod[-2]\<close> and \<open>prod[-1]\<close>
  are the last two characters.
\<close>

definition chain_step ::
  "string \<Rightarrow> nat \<Rightarrow> cnf_locals \<times> string \<Rightarrow> error + cnf_locals \<times> string" where
  "chain_step prd i st =
     (let L = fst st; current_var = snd st
      in case generate_new_variable (lself L) of
           (next_var, self1) \<Rightarrow>
             (case (if i = 0
                    then append_item current_var ([prd ! 0] @ next_var)
                           (setitem next_var [] (lfinal_productions L))
                    else (case lprev_var L of
                            None \<Rightarrow> Inl UnboundLocalError
                          | Some prev_var \<Rightarrow>
                              append_item current_var (prev_var @ next_var)
                                (setitem next_var [] (lfinal_productions L)))) of
                Inl e \<Rightarrow> Inl e
              | Inr fp1 \<Rightarrow>
                  (case (if i = length prd - 3
                         then append_item next_var
                                ([prd ! (length prd - 2)] @ [prd ! (length prd - 1)]) fp1
                         else Inr fp1) of
                     Inl e \<Rightarrow> Inl e
                   | Inr fp2 \<Rightarrow>
                       Inr (L\<lparr>lself := self1,
                              lvariables := set_add next_var (lvariables L),
                              lfinal_productions := fp2,
                              lprev_var := Some next_var\<rparr>, next_var))))"

definition binarize_prod :: "string \<Rightarrow> string \<Rightarrow> cnf_locals \<Rightarrow> error + cnf_locals" where
  "binarize_prod var prd L =
     (if length prd \<le> 2
      then (case append_new var prd (lfinal_productions L) of
              Inl e \<Rightarrow> Inl e
            | Inr d \<Rightarrow> Inr (L\<lparr>lfinal_productions := d\<rparr>))
      else (case for_each (chain_step prd) [0..<length prd - 2] (L, var) of
              Inl e \<Rightarrow> Inl e
            | Inr (L', current_var) \<Rightarrow> Inr L'))"

definition binarize_var :: "string \<times> string list \<Rightarrow> cnf_locals \<Rightarrow> error + cnf_locals" where
  "binarize_var item L = for_each (binarize_prod (fst item)) (snd item) L"

definition convert_to_cnf :: "CNFConverter \<Rightarrow> error + CFG \<times> CNFConverter" where
  "convert_to_cnf self =
     (case first_two_stages self of
        Inl e \<Rightarrow> Inl e
      | Inr (cfg1, self1) \<Rightarrow>
          (let L0 = \<lparr>lself = self1,
                     lvariables = variables cfg1,
                     lproductions = fold (\<lambda>item d. setitem (fst item) (snd item) d)
                                      (productions cfg1)
                                      (map (\<lambda>var. (var, [])) (variables cfg1)),
                     lfinal_productions = [],
                     lprev_var = None\<rparr>
           in case for_each (isolate_var (terminals cfg1)) (productions cfg1) L0 of
                Inl e \<Rightarrow> Inl e
              | Inr L1 \<Rightarrow>
                  (case for_each binarize_var (lproductions L1)
                          (L1\<lparr>lfinal_productions := map (\<lambda>var. (var, [])) (lvariables L1)\<rparr>) of
                     Inl e \<Rightarrow> Inl e
                   | Inr L2 \<Rightarrow>
                       Inr (\<lparr>variables = lvariables L2,
                             terminals = terminals cfg1,
                             productions = lfinal_productions L2,
                             start_symbol = start_symbol cfg1\<rparr>, lself L2))))"

section \<open>dfa\_minimizer.py\<close>

text \<open>
  State identifiers and input symbols are any Python values that can be hashed: the
  record is polymorphic in both. \<open>transitions\<close> is the dict from \<open>(state, symbol)\<close>
  to the next state.
\<close>

record ('q, 'a) DFA =
  states :: "'q list"
  alphabet :: "'a list"
  transitions :: "(('q \<times> 'a) \<times> 'q) list"
  start_state :: 'q
  final_states :: "'q list"

subsection \<open>get\_accessible\_states and remove\_inaccessible\_states\<close>

text \<open>The body of \<open>for symbol in self.alphabet\<close>; the state is \<open>(accessible, queue)\<close>.\<close>

definition visit ::
  "(('q \<times> 'a) \<times> 'q) list \<Rightarrow> 'q \<Rightarrow> 'a \<Rightarrow> 'q list \<times> 'q list \<Rightarrow> 'q list \<times> 'q list" where
  "visit delta state symbol st =
     (case map_of delta (state, symbol) of
        None \<Rightarrow> st
      | Some next_state \<Rightarrow>
          if next_state \<in> set (fst st) then st
          else (set_add next_state (fst st), snd st @ [next_state]))"

definition bfs_measure :: "(('q \<times> 'a) \<times> 'q) list \<Rightarrow> 'q list \<times> 'q list \<Rightarrow> nat" where
  "bfs_measure delta st = 2 * card (snd ` set delta - set (fst st)) + length (snd st)"

lemma visit_measure: "bfs_measure delta (visit delta state symbol st) \<le> bfs_measure delta st"
proof (cases "map_of delta (state, symbol)")
  case None
  then show ?thesis by (simp add: visit_def)
next
  case (Some n)
  show ?thesis
  proof (cases "n \<in> set (fst st)")
    case True
    with Some show ?thesis by (simp add: visit_def)
  next
    case False
    from Some have "((state, symbol), n) \<in> set delta" by (rule map_of_SomeD)
    then have "n \<in> snd ` set delta" by force
    with False have mem: "n \<in> snd ` set delta - set (fst st)" by simp
    have fin: "finite (snd ` set delta - set (fst st))" by simp
    have "snd ` set delta - set (set_add n (fst st)) = (snd ` set delta - set (fst st)) - {n}"
      by (auto simp: set_add_def)
    then have "card (snd ` set delta - set (set_add n (fst st)))
        = card (snd ` set delta - set (fst st)) - 1"
      using mem fin by (simp add: card_Diff_singleton)
    moreover have "card (snd ` set delta - set (fst st)) \<ge> 1"
      using mem fin by (metis One_nat_def Suc_leI card_gt_0_iff empty_iff)
    ultimately show ?thesis
      using Some False by (simp add: visit_def bfs_measure_def)
  qed
qed

lemma fold_visit_measure:
  "bfs_measure delta (fold (visit delta state) symbols st) \<le> bfs_measure delta st"
proof (induction symbols arbitrary: st)
  case Nil
  then show ?case by simp
next
  case (Cons a symbols)
  have "bfs_measure delta (fold (visit delta state) symbols (visit delta state a st))
      \<le> bfs_measure delta (visit delta state a st)"
    by (rule Cons.IH)
  also have "\<dots> \<le> bfs_measure delta st" by (rule visit_measure)
  finally show ?case by simp
qed

text \<open>The \<open>while queue\<close> loop: \<open>queue.pop(0)\<close> takes the head.\<close>

function bfs :: "('q, 'a) DFA \<Rightarrow> 'q list \<Rightarrow> 'q list \<Rightarrow> 'q list" where
  "bfs D accessible [] = accessible"
| "bfs D accessible (state # queue) =
     (case fold (visit (transitions D) state) (alphabet D) (accessible, queue) of
        (accessible', queue') \<Rightarrow> bfs D accessible' queue')"
  by pat_completeness auto

termination bfs
proof (relation "measure (\<lambda>(D, accessible, queue). bfs_measure (transitions D) (accessible, queue))")
  show "wf (measure (\<lambda>(D, accessible, queue). bfs_measure (transitions D) (accessible, queue)))"
    by simp
next
  fix D accessible state queue x y
  assume "(x, y) = fold (visit (transitions D) state) (alphabet D) (accessible, queue)"
  then have "bfs_measure (transitions D) (x, y) \<le> bfs_measure (transitions D) (accessible, queue)"
    using fold_visit_measure [of "transitions D" state "alphabet D" "(accessible, queue)"] by simp
  also have "\<dots> < bfs_measure (transitions D) (accessible, state # queue)"
    by (simp add: bfs_measure_def)
  finally show "((D, x, y), (D, accessible, state # queue))
      \<in> measure (\<lambda>(D, accessible, queue). bfs_measure (transitions D) (accessible, queue))"
    by simp
qed

definition get_accessible_states :: "('q, 'a) DFA \<Rightarrow> 'q list" where
  "get_accessible_states D = bfs D [start_state D] [start_state D]"

definition remove_inaccessible_states :: "('q, 'a) DFA \<Rightarrow> ('q, 'a) DFA" where
  "remove_inaccessible_states D =
     (let accessible = get_accessible_states D
      in \<lparr>states = accessible,
          alphabet = alphabet D,
          transitions = filter (\<lambda>item. fst (fst item) \<in> set accessible \<and> snd item \<in> set accessible)
                          (transitions D),
          start_state = start_state D,
          final_states = filter (\<lambda>state. state \<in> set accessible) (final_states D)\<rparr>)"

subsection \<open>refine\_partition\<close>

text \<open>
  \<open>for i, p in enumerate(partition): if next_state in p: ...; break\<close>: the index of the
  first group that holds \<open>next_state\<close>, counted from \<open>i\<close>.
\<close>

fun find_group :: "'q list list \<Rightarrow> 'q \<Rightarrow> nat \<Rightarrow> nat option" where
  "find_group [] next_state i = None"
| "find_group (p # ps) next_state i =
     (if next_state \<in> set p then Some i else find_group ps next_state (Suc i))"

text \<open>
  What one alphabet symbol adds to the signature of a state: the pair of the symbol and
  the index of the successor's group, the pair with \<open>-1\<close> when there is no transition,
  and nothing when no group holds the successor.
\<close>

definition signature_entry ::
  "('q, 'a) DFA \<Rightarrow> 'q list list \<Rightarrow> 'q \<Rightarrow> 'a \<Rightarrow> ('a \<times> int) list" where
  "signature_entry dfa partn state symbol =
     (case map_of (transitions dfa) (state, symbol) of
        None \<Rightarrow> [(symbol, - 1)]
      | Some next_state \<Rightarrow>
          (case find_group partn next_state 0 of
             None \<Rightarrow> []
           | Some i \<Rightarrow> [(symbol, int i)]))"

definition signature :: "('q, 'a) DFA \<Rightarrow> 'q list list \<Rightarrow> 'q \<Rightarrow> ('a \<times> int) list" where
  "signature dfa partn state =
     concat (map (signature_entry dfa partn state) (alphabet dfa))"

text \<open>The body of \<open>for state in group\<close>; the state of the loop is the dict \<open>subgroups\<close>.\<close>

definition add_to_subgroup ::
  "('q, 'a) DFA \<Rightarrow> 'q list list \<Rightarrow> 'q \<Rightarrow> (('a \<times> int) list \<times> 'q list) list
     \<Rightarrow> (('a \<times> int) list \<times> 'q list) list" where
  "add_to_subgroup dfa partn state subgroups =
     (case map_of subgroups (signature dfa partn state) of
        None \<Rightarrow> setitem (signature dfa partn state) [state] subgroups
      | Some s \<Rightarrow> setitem (signature dfa partn state) (set_add state s) subgroups)"

definition split_group :: "('q, 'a) DFA \<Rightarrow> 'q list list \<Rightarrow> 'q list \<Rightarrow> 'q list list" where
  "split_group dfa partn grp = map snd (fold (add_to_subgroup dfa partn) grp [])"

definition refine_partition :: "('q, 'a) DFA \<Rightarrow> 'q list list \<Rightarrow> 'q list list" where
  "refine_partition dfa partn = concat (map (split_group dfa partn) partn)"

text \<open>
  What the loop over one group keeps true of \<open>subgroups\<close>, where \<open>X\<close> are the states
  handled so far: every key occurs once, every subgroup is non-empty and holds handled
  states with the signature that is its key, and every handled state is in the subgroup
  of its signature.
\<close>

definition subgroups_inv ::
  "('q, 'a) DFA \<Rightarrow> 'q list list \<Rightarrow> 'q set \<Rightarrow> (('a \<times> int) list \<times> 'q list) list \<Rightarrow> bool" where
  "subgroups_inv dfa partn X subgroups \<longleftrightarrow>
     distinct (map fst subgroups) \<and>
     (\<forall>k s. map_of subgroups k = Some s \<longrightarrow>
        s \<noteq> [] \<and> set s \<subseteq> X \<and> (\<forall>x \<in> set s. signature dfa partn x = k)) \<and>
     (\<forall>x \<in> X. \<exists>s. map_of subgroups (signature dfa partn x) = Some s \<and> x \<in> set s)"

lemma subgroups_inv_empty: "subgroups_inv dfa partn {} []"
  by (simp add: subgroups_inv_def)

lemma subgroups_inv_setitem:
  assumes inv: "subgroups_inv dfa partn X subgroups"
    and t: "t \<noteq> []" "set t \<subseteq> insert x X" "x \<in> set t"
      "\<forall>y \<in> set t. signature dfa partn y = signature dfa partn x"
    and old: "\<forall>s. map_of subgroups (signature dfa partn x) = Some s \<longrightarrow> set s \<subseteq> set t"
  shows "subgroups_inv dfa partn (insert x X) (setitem (signature dfa partn x) t subgroups)"
proof -
  let ?k = "signature dfa partn x"
  let ?m = "map_of (setitem ?k t subgroups)"
  have m: "?m = (map_of subgroups)(?k \<mapsto> t)"
    by (simp add: setitem_def update_conv')
  have d: "distinct (map fst (setitem ?k t subgroups))"
    using inv by (simp add: subgroups_inv_def setitem_def distinct_update)
  have a: "s \<noteq> [] \<and> set s \<subseteq> insert x X \<and> (\<forall>y \<in> set s. signature dfa partn y = k)"
    if "?m k = Some s" for k s
  proof (cases "k = ?k")
    case True
    with that m have "s = t" by simp
    with t True show ?thesis by blast
  next
    case False
    with that m have "map_of subgroups k = Some s" by simp
    with inv have "s \<noteq> [] \<and> set s \<subseteq> X \<and> (\<forall>y \<in> set s. signature dfa partn y = k)"
      unfolding subgroups_inv_def by blast
    then show ?thesis by blast
  qed
  have b: "\<exists>s. ?m (signature dfa partn y) = Some s \<and> y \<in> set s" if "y \<in> insert x X" for y
  proof (cases "y = x")
    case True
    with m t(3) show ?thesis by simp
  next
    case False
    with that have "y \<in> X" by simp
    with inv obtain s where s: "map_of subgroups (signature dfa partn y) = Some s" "y \<in> set s"
      unfolding subgroups_inv_def by blast
    show ?thesis
    proof (cases "signature dfa partn y = ?k")
      case True
      with s old have "y \<in> set t" by auto
      with True m show ?thesis by simp
    next
      case False
      with s m show ?thesis by simp
    qed
  qed
  from d a b show ?thesis
    unfolding subgroups_inv_def by blast
qed

lemma subgroups_inv_step:
  assumes "subgroups_inv dfa partn X subgroups"
  shows "subgroups_inv dfa partn (insert x X) (add_to_subgroup dfa partn x subgroups)"
proof (cases "map_of subgroups (signature dfa partn x)")
  case None
  then have eq: "add_to_subgroup dfa partn x subgroups
      = setitem (signature dfa partn x) [x] subgroups"
    by (simp add: add_to_subgroup_def)
  show ?thesis
    unfolding eq using assms None by (intro subgroups_inv_setitem) simp_all
next
  case (Some s)
  then have eq: "add_to_subgroup dfa partn x subgroups
      = setitem (signature dfa partn x) (set_add x s) subgroups"
    by (simp add: add_to_subgroup_def)
  have s: "set s \<subseteq> X" "\<forall>y \<in> set s. signature dfa partn y = signature dfa partn x"
    using assms Some unfolding subgroups_inv_def by blast+
  have sa: "set (set_add x s) = insert x (set s)" "set_add x s \<noteq> []"
    by (auto simp: set_add_def)
  show ?thesis
    unfolding eq
  proof (rule subgroups_inv_setitem [OF assms])
    show "set_add x s \<noteq> []" by (rule sa)
    show "set (set_add x s) \<subseteq> insert x X" using sa s by auto
    show "x \<in> set (set_add x s)" using sa by simp
    show "\<forall>y \<in> set (set_add x s). signature dfa partn y = signature dfa partn x"
      unfolding sa(1) using s(2) by blast
    show "\<forall>s'. map_of subgroups (signature dfa partn x) = Some s' \<longrightarrow> set s' \<subseteq> set (set_add x s)"
      using Some sa by auto
  qed
qed

lemma subgroups_inv_fold:
  "subgroups_inv dfa partn X subgroups \<Longrightarrow>
     subgroups_inv dfa partn (X \<union> set grp) (fold (add_to_subgroup dfa partn) grp subgroups)"
proof (induction grp arbitrary: X subgroups)
  case Nil
  then show ?case by simp
next
  case (Cons x grp)
  from subgroups_inv_step [OF Cons.prems, of x]
  have "subgroups_inv dfa partn (insert x X \<union> set grp)
          (fold (add_to_subgroup dfa partn) grp (add_to_subgroup dfa partn x subgroups))"
    by (rule Cons.IH)
  then show ?case by simp
qed

lemma subgroups_inv_split:
  "subgroups_inv dfa partn (set grp) (fold (add_to_subgroup dfa partn) grp [])"
  using subgroups_inv_fold [OF subgroups_inv_empty, of dfa partn grp] by simp
text \<open>Groups that share no state, and the union of the groups.\<close>

fun groups_disjoint :: "'q list list \<Rightarrow> bool" where
  "groups_disjoint [] = True"
| "groups_disjoint (g # gs) = (set g \<inter> \<Union> (set ` set gs) = {} \<and> groups_disjoint gs)"

definition groups_union :: "'q list list \<Rightarrow> 'q set" where
  "groups_union gs = \<Union> (set ` set gs)"

definition total_size :: "'q list list \<Rightarrow> nat" where
  "total_size gs = sum_list (map (\<lambda>g. card (set g)) gs)"

lemma groups_union_simps [simp]:
  "groups_union [] = {}"
  "groups_union (g # gs) = set g \<union> groups_union gs"
  "groups_union (gs @ hs) = groups_union gs \<union> groups_union hs"
  by (auto simp: groups_union_def)

lemma total_size_simps [simp]:
  "total_size [] = 0"
  "total_size (g # gs) = card (set g) + total_size gs"
  "total_size (gs @ hs) = total_size gs + total_size hs"
  by (simp_all add: total_size_def)

lemma groups_disjoint_append:
  "groups_disjoint (gs @ hs) \<longleftrightarrow>
     groups_disjoint gs \<and> groups_disjoint hs \<and> groups_union gs \<inter> groups_union hs = {}"
  by (induction gs) (auto simp: groups_union_def)

lemma card_groups_union: "groups_disjoint gs \<Longrightarrow> card (groups_union gs) = total_size gs"
proof (induction gs)
  case Nil
  then show ?case by simp
next
  case (Cons g gs)
  then have "set g \<inter> groups_union gs = {}" by (simp add: groups_union_def)
  moreover have "finite (groups_union gs)" by (simp add: groups_union_def)
  ultimately have "card (set g \<union> groups_union gs) = card (set g) + card (groups_union gs)"
    by (simp add: card_Un_disjoint)
  with Cons show ?case by simp
qed

lemma length_le_total_size: "\<forall>g \<in> set gs. g \<noteq> [] \<Longrightarrow> length gs \<le> total_size gs"
proof (induction gs)
  case Nil
  then show ?case by simp
next
  case (Cons g gs)
  then have "g \<noteq> []" by simp
  then have "0 < card (set g)" by (simp add: card_gt_0_iff)
  with Cons show ?case by simp
qed

text \<open>What \<open>split_group\<close> returns: the classes of the group under the signature.\<close>

lemma entries_disjoint:
  "distinct (map fst sgs) \<Longrightarrow> \<forall>e \<in> set sgs. \<forall>x \<in> set (snd e). f x = fst e \<Longrightarrow>
     groups_disjoint (map snd sgs)"
proof (induction sgs)
  case Nil
  then show ?case by simp
next
  case (Cons e sgs)
  have "set (snd e) \<inter> \<Union> (set ` set (map snd sgs)) = {}"
  proof (rule ccontr)
    assume "set (snd e) \<inter> \<Union> (set ` set (map snd sgs)) \<noteq> {}"
    then obtain x e' where x: "x \<in> set (snd e)" "e' \<in> set sgs" "x \<in> set (snd e')" by auto
    with Cons.prems(2) have "f x = fst e" "f x = fst e'" by auto
    then have "fst e = fst e'" by simp
    then have "fst e \<in> fst ` set sgs" using x(2) by simp
    with Cons.prems(1) show False by simp
  qed
  with Cons show ?case by simp
qed

lemma split_group_props:
  "groups_disjoint (split_group dfa partn grp)"
  "groups_union (split_group dfa partn grp) = set grp"
  "\<forall>s \<in> set (split_group dfa partn grp). s \<noteq> []"
proof -
  let ?sgs = "fold (add_to_subgroup dfa partn) grp []"
  have inv: "subgroups_inv dfa partn (set grp) ?sgs" by (rule subgroups_inv_split)
  then have d: "distinct (map fst ?sgs)" by (simp add: subgroups_inv_def)
  have entry: "s \<noteq> [] \<and> set s \<subseteq> set grp \<and> (\<forall>x \<in> set s. signature dfa partn x = k)"
    if "(k, s) \<in> set ?sgs" for k s
  proof -
    from that d have "map_of ?sgs k = Some s" by simp
    with inv show ?thesis unfolding subgroups_inv_def by blast
  qed
  have "\<forall>e \<in> set ?sgs. \<forall>x \<in> set (snd e). signature dfa partn x = fst e"
    using entry by (metis prod.collapse)
  with d show "groups_disjoint (split_group dfa partn grp)"
    unfolding split_group_def by (rule entries_disjoint)
  show "\<forall>s \<in> set (split_group dfa partn grp). s \<noteq> []"
    unfolding split_group_def using entry by auto
  show "groups_union (split_group dfa partn grp) = set grp"
  proof
    show "groups_union (split_group dfa partn grp) \<subseteq> set grp"
      unfolding split_group_def groups_union_def using entry by fastforce
    show "set grp \<subseteq> groups_union (split_group dfa partn grp)"
    proof
      fix x assume "x \<in> set grp"
      with inv obtain s where "map_of ?sgs (signature dfa partn x) = Some s" "x \<in> set s"
        unfolding subgroups_inv_def by blast
      then have "(signature dfa partn x, s) \<in> set ?sgs" "x \<in> set s"
        by (auto dest: map_of_SomeD)
      then show "x \<in> groups_union (split_group dfa partn grp)"
        unfolding split_group_def groups_union_def by force
    qed
  qed
qed

lemma split_group_same:
  assumes "s \<in> set (split_group dfa partn grp)" "x \<in> set s" "y \<in> set grp"
  shows "y \<in> set s \<longleftrightarrow> signature dfa partn y = signature dfa partn x"
proof -
  let ?sgs = "fold (add_to_subgroup dfa partn) grp []"
  have inv: "subgroups_inv dfa partn (set grp) ?sgs" by (rule subgroups_inv_split)
  then have d: "distinct (map fst ?sgs)" by (simp add: subgroups_inv_def)
  from assms(1) obtain k where "(k, s) \<in> set ?sgs" by (auto simp: split_group_def)
  with d have ks: "map_of ?sgs k = Some s" by simp
  with inv have key: "\<forall>z \<in> set s. signature dfa partn z = k"
    unfolding subgroups_inv_def by blast
  with assms(2) have kx: "signature dfa partn x = k" by blast
  show ?thesis
  proof
    assume "y \<in> set s"
    with key kx show "signature dfa partn y = signature dfa partn x" by simp
  next
    assume eq: "signature dfa partn y = signature dfa partn x"
    from inv assms(3) obtain t where "map_of ?sgs (signature dfa partn y) = Some t" "y \<in> set t"
      unfolding subgroups_inv_def by blast
    with eq kx ks show "y \<in> set s" by simp
  qed
qed

lemma split_group_total: "total_size (split_group dfa partn grp) = card (set grp)"
  using card_groups_union [OF split_group_props(1), of dfa partn grp]
  by (simp add: split_group_props(2))

lemma split_group_nonempty: "grp \<noteq> [] \<Longrightarrow> split_group dfa partn grp \<noteq> []"
  using split_group_props(2) [of dfa partn grp] by (auto simp: groups_union_def)

lemma split_group_single:
  assumes "length (split_group dfa partn grp) \<le> 1" "grp \<noteq> []"
  shows "\<exists>s. split_group dfa partn grp = [s] \<and> set s = set grp"
proof -
  from assms split_group_nonempty [of grp dfa partn]
  obtain s where s: "split_group dfa partn grp = [s]"
    by (cases "split_group dfa partn grp") auto
  with split_group_props(2) [of dfa partn grp] have "set s = set grp" by simp
  with s show ?thesis by simp
qed

text \<open>The same for \<open>refine_partition\<close>, one group after the other.\<close>

lemma refine_groups_nonempty: "\<forall>g \<in> set (refine_partition dfa partn). g \<noteq> []"
  unfolding refine_partition_def using split_group_props(3) by fastforce

lemma concat_split_total:
  "total_size (concat (map (split_group dfa partn) gs)) = total_size gs"
  by (induction gs) (simp_all add: split_group_total)

lemma refine_total: "total_size (refine_partition dfa partn) = total_size partn"
  unfolding refine_partition_def by (rule concat_split_total)

lemma concat_split_length:
  "\<forall>g \<in> set gs. g \<noteq> [] \<Longrightarrow> length gs \<le> length (concat (map (split_group dfa partn) gs))"
proof (induction gs)
  case Nil
  then show ?case by simp
next
  case (Cons g gs)
  then have "split_group dfa partn g \<noteq> []" by (simp add: split_group_nonempty)
  then have "1 \<le> length (split_group dfa partn g)" by (cases "split_group dfa partn g") auto
  with Cons show ?case by simp
qed

lemma concat_split_same:
  "\<forall>g \<in> set gs. g \<noteq> [] \<Longrightarrow> length (concat (map (split_group dfa partn) gs)) \<le> length gs \<Longrightarrow>
     list_all2 (\<lambda>p q. set p = set q) (concat (map (split_group dfa partn) gs)) gs"
proof (induction gs)
  case Nil
  then show ?case by simp
next
  case (Cons g gs)
  from Cons.prems(1) have ne: "g \<noteq> []" "\<forall>g \<in> set gs. g \<noteq> []" by simp_all
  have rest: "length gs \<le> length (concat (map (split_group dfa partn) gs))"
    using ne(2) by (rule concat_split_length)
  have "1 \<le> length (split_group dfa partn g)"
    using split_group_nonempty [OF ne(1), of dfa partn]
    by (cases "split_group dfa partn g") auto
  with rest Cons.prems(2)
  have one: "length (split_group dfa partn g) \<le> 1"
    and le: "length (concat (map (split_group dfa partn) gs)) \<le> length gs"
    by simp_all
  from split_group_single [OF one ne(1)] obtain s
    where "split_group dfa partn g = [s]" "set s = set g" by blast
  with Cons.IH [OF ne(2) le] show ?case by simp
qed

lemma refine_changed_longer:
  assumes "\<forall>g \<in> set partn. g \<noteq> []"
    and "\<not> list_all2 (\<lambda>p q. set p = set q) (refine_partition dfa partn) partn"
  shows "length partn < length (refine_partition dfa partn)"
  using assms concat_split_same [of partn dfa partn] unfolding refine_partition_def
  by (meson not_le_imp_less)
subsection \<open>minimize and create\_minimized\_dfa\<close>

text \<open>
  The \<open>while True\<close> loop of \<open>minimize\<close>. \<open>new_partition == partition\<close> compares two
  lists of sets: the same length, and the same set at every position.
\<close>

function refine_loop :: "('q, 'a) DFA \<Rightarrow> 'q list list \<Rightarrow> 'q list list" where
  "refine_loop dfa partn =
     (if list_all2 (\<lambda>p q. set p = set q) (refine_partition dfa partn) partn then partn
      else refine_loop dfa (refine_partition dfa partn))"
  by pat_completeness auto

definition refine_measure :: "'q list list \<Rightarrow> nat" where
  "refine_measure partn =
     (if list_ex (\<lambda>g. g = []) partn then total_size partn + 1
      else total_size partn - length partn)"

termination refine_loop
proof (relation "measure (\<lambda>(dfa, partn). refine_measure partn)")
  show "wf (measure (\<lambda>(dfa, partn). refine_measure partn))" by simp
next
  fix dfa partn
  let ?new = "refine_partition dfa partn"
  assume changed: "\<not> list_all2 (\<lambda>p q. set p = set q) ?new partn"
  have ne: "\<forall>g \<in> set ?new. g \<noteq> []" by (rule refine_groups_nonempty)
  then have new: "refine_measure ?new = total_size partn - length ?new"
    by (simp add: refine_measure_def list_ex_iff refine_total)
  have le: "length ?new \<le> total_size partn"
    using length_le_total_size [OF ne] by (simp add: refine_total)
  have "refine_measure ?new < refine_measure partn"
  proof (cases "list_ex (\<lambda>g. g = []) partn")
    case True
    then show ?thesis using new by (simp add: refine_measure_def)
  next
    case False
    then have "\<forall>g \<in> set partn. g \<noteq> []" by (auto simp: list_ex_iff)
    then have "length partn < length ?new" using changed by (rule refine_changed_longer)
    with le False new show ?thesis by (simp add: refine_measure_def)
  qed
  then show "((dfa, ?new), (dfa, partn)) \<in> measure (\<lambda>(dfa, partn). refine_measure partn)"
    by simp
qed

declare refine_loop.simps [simp del]

text \<open>
  \<open>state_map\<close>: every state of group \<open>i\<close> is mapped to the name \<open>f"q{i}"\<close>, later groups
  overwriting earlier ones.
\<close>

definition state_name :: "nat \<Rightarrow> string" where
  "state_name i = ''q'' @ str_nat i"

definition name_group :: "nat \<times> 'q list \<Rightarrow> ('q \<times> string) list \<Rightarrow> ('q \<times> string) list" where
  "name_group item state_map =
     fold (\<lambda>state. setitem state (state_name (fst item))) (snd item) state_map"

definition state_map_of :: "'q list list \<Rightarrow> ('q \<times> string) list" where
  "state_map_of partn = fold name_group (enumerate 0 partn) []"

text \<open>The set comprehension \<open>{state_map[state] for state in xs}\<close>.\<close>

definition map_states :: "('q \<times> string) list \<Rightarrow> 'q list \<Rightarrow> error + string list" where
  "map_states state_map xs =
     for_each (\<lambda>state acc. case getitem state_map state of
                              Inl e \<Rightarrow> Inl e
                            | Inr r \<Rightarrow> Inr (set_add r acc)) xs []"

text \<open>\<open>new_transitions[(state_map[state], symbol)] = state_map[next_state]\<close>\<close>

definition map_transition ::
  "('q \<times> string) list \<Rightarrow> ('q \<times> 'a) \<times> 'q \<Rightarrow> ((string \<times> 'a) \<times> string) list
     \<Rightarrow> error + ((string \<times> 'a) \<times> string) list" where
  "map_transition state_map item new_transitions =
     (case getitem state_map (snd item) of
        Inl e \<Rightarrow> Inl e
      | Inr n \<Rightarrow>
          (case getitem state_map (fst (fst item)) of
             Inl e \<Rightarrow> Inl e
           | Inr s \<Rightarrow> Inr (setitem (s, snd (fst item)) n new_transitions)))"

definition create_minimized_dfa ::
  "('q, 'a) DFA \<Rightarrow> 'q list list \<Rightarrow> error + (string, 'a) DFA" where
  "create_minimized_dfa dfa partn =
     (let state_map = state_map_of partn
      in case map_states state_map (states dfa) of
           Inl e \<Rightarrow> Inl e
         | Inr new_states \<Rightarrow>
        (case for_each (map_transition state_map) (transitions dfa) [] of
           Inl e \<Rightarrow> Inl e
         | Inr new_transitions \<Rightarrow>
        (case getitem state_map (start_state dfa) of
           Inl e \<Rightarrow> Inl e
         | Inr new_start_state \<Rightarrow>
        (case map_states state_map (final_states dfa) of
           Inl e \<Rightarrow> Inl e
         | Inr new_final_states \<Rightarrow>
             Inr \<lparr>states = new_states, alphabet = alphabet dfa,
                  transitions = new_transitions, start_state = new_start_state,
                  final_states = new_final_states\<rparr>))))"

text \<open>
  The first partition: the accepting states and the others, each when not empty.
\<close>

definition initial_partition :: "('q, 'a) DFA \<Rightarrow> 'q list list" where
  "initial_partition dfa =
     (let accepting = final_states dfa;
          non_accepting = filter (\<lambda>state. state \<notin> set accepting) (states dfa)
      in (if accepting \<noteq> [] then [accepting] else []) @
         (if non_accepting \<noteq> [] then [non_accepting] else []))"

text \<open>
  \<open>minimize\<close> returns the pruned automaton, with the caller's state names, or the
  quotient, whose states are named \<open>q0\<close>, \<open>q1\<close>, ...: the states are strings.
\<close>

definition minimize :: "(string, 'a) DFA \<Rightarrow> error + (string, 'a) DFA" where
  "minimize D =
     (let dfa = remove_inaccessible_states D
      in if length (states dfa) \<le> 1 then Inr dfa
         else create_minimized_dfa dfa (refine_loop dfa (initial_partition dfa)))"

text \<open>
  Acceptance, as the helper \<open>accepts\<close> of \<open>test_dfa_minimizer.py\<close> decides it: follow the
  transitions from the start state, reject when one is missing, and accept when the
  state reached is final.
\<close>

fun run :: "(('q \<times> 'a) \<times> 'q) list \<Rightarrow> 'q \<Rightarrow> 'a list \<Rightarrow> 'q option" where
  "run delta current_state [] = Some current_state"
| "run delta current_state (symbol # input_string) =
     (case map_of delta (current_state, symbol) of
        None \<Rightarrow> None
      | Some next_state \<Rightarrow> run delta next_state input_string)"

definition accepts :: "('q, 'a) DFA \<Rightarrow> 'a list \<Rightarrow> bool" where
  "accepts dfa input_string =
     (case run (transitions dfa) (start_state dfa) input_string of
        None \<Rightarrow> False
      | Some current_state \<Rightarrow> current_state \<in> set (final_states dfa))"

section \<open>Claims about dfa\_minimizer.py\<close>

subsection \<open>Accessible states\<close>

text \<open>
  The states reachable from the start state by transitions on symbols of the alphabet:
  the loop of \<open>get_accessible_states\<close> follows a transition when its symbol is in
  \<open>self.alphabet\<close>.
\<close>

inductive_set reachable :: "('q, 'a) DFA \<Rightarrow> 'q set" for D :: "('q, 'a) DFA" where
  start: "start_state D \<in> reachable D"
| step: "q \<in> reachable D \<Longrightarrow> symbol \<in> set (alphabet D) \<Longrightarrow>
         map_of (transitions D) (q, symbol) = Some q' \<Longrightarrow> q' \<in> reachable D"

lemma visit_props:
  assumes "visit delta state symbol (acc, queue) = (acc', queue')"
  shows "set acc' = set acc \<union> {q'. map_of delta (state, symbol) = Some q'}"
    and "set queue' = set queue \<union> (set acc' - set acc)"
    and "distinct acc \<Longrightarrow> distinct acc'"
  using assms
  by (auto simp: visit_def set_add_def split: option.splits if_splits)

lemma fold_visit_props:
  assumes "fold (visit delta state) symbols (acc, queue) = (acc', queue')"
  shows "set acc' = set acc \<union> {q'. \<exists>a \<in> set symbols. map_of delta (state, a) = Some q'}
       \<and> set queue' = set queue \<union> (set acc' - set acc)
       \<and> (distinct acc \<longrightarrow> distinct acc')"
  using assms
proof (induction symbols arbitrary: acc queue)
  case Nil
  then show ?case by auto
next
  case (Cons a symbols)
  obtain acc1 queue1 where v: "visit delta state a (acc, queue) = (acc1, queue1)"
    by (cases "visit delta state a (acc, queue)")
  with Cons.prems have f: "fold (visit delta state) symbols (acc1, queue1) = (acc', queue')"
    by simp
  note p1 = visit_props [OF v]
  note p2 = Cons.IH [OF f]
  have "set acc' = set acc \<union> {q'. \<exists>b \<in> set (a # symbols). map_of delta (state, b) = Some q'}"
    using p1(1) p2 by auto
  moreover have "set queue' = set queue \<union> (set acc' - set acc)"
    using p1(1,2) p2 by auto
  moreover have "distinct acc \<longrightarrow> distinct acc'"
    using p1(3) p2 by blast
  ultimately show ?case by blast
qed

definition bfs_inv :: "('q, 'a) DFA \<Rightarrow> 'q list \<Rightarrow> 'q list \<Rightarrow> bool" where
  "bfs_inv D acc queue \<longleftrightarrow>
     start_state D \<in> set acc \<and> set queue \<subseteq> set acc \<and> set acc \<subseteq> reachable D \<and> distinct acc \<and>
     (\<forall>q \<in> set acc - set queue. \<forall>a \<in> set (alphabet D). \<forall>q'.
        map_of (transitions D) (q, a) = Some q' \<longrightarrow> q' \<in> set acc)"

lemma bfs_inv_step:
  assumes inv: "bfs_inv D acc (state # queue)"
    and f: "fold (visit (transitions D) state) (alphabet D) (acc, queue) = (acc', queue')"
  shows "bfs_inv D acc' queue'"
proof -
  note p = fold_visit_props [OF f]
  from p have acc': "set acc' = set acc \<union>
      {q'. \<exists>a \<in> set (alphabet D). map_of (transitions D) (state, a) = Some q'}" by blast
  from p have queue': "set queue' = set queue \<union> (set acc' - set acc)" by blast
  from inv have st: "state \<in> reachable D" "state \<in> set acc"
    by (auto simp: bfs_inv_def)
  have 1: "start_state D \<in> set acc'" using inv acc' by (auto simp: bfs_inv_def)
  have 2: "set queue' \<subseteq> set acc'" using inv acc' queue' by (auto simp: bfs_inv_def)
  have 3: "set acc' \<subseteq> reachable D"
  proof
    fix q assume "q \<in> set acc'"
    with acc' consider "q \<in> set acc"
      | a where "a \<in> set (alphabet D)" "map_of (transitions D) (state, a) = Some q" by blast
    then show "q \<in> reachable D"
    proof cases
      case 1
      with inv show ?thesis by (auto simp: bfs_inv_def)
    next
      case 2
      with st(1) show ?thesis by (blast intro: reachable.step)
    qed
  qed
  have 4: "distinct acc'" using inv p by (simp add: bfs_inv_def)
  have 5: "q' \<in> set acc'"
    if "q \<in> set acc' - set queue'" "a \<in> set (alphabet D)"
       "map_of (transitions D) (q, a) = Some q'" for q a q'
  proof (cases "q = state")
    case True
    with that acc' show ?thesis by blast
  next
    case False
    from that(1) queue' have "q \<in> set acc" "q \<notin> set queue" by auto
    with False have "q \<in> set acc - set (state # queue)" by simp
    with inv that(2,3) have "q' \<in> set acc" unfolding bfs_inv_def by blast
    with acc' show ?thesis by simp
  qed
  from 1 2 3 4 5 show ?thesis unfolding bfs_inv_def by blast
qed

lemma bfs_correct:
  "bfs_inv D acc queue \<Longrightarrow> set (bfs D acc queue) = reachable D \<and> distinct (bfs D acc queue)"
proof (induction D acc queue rule: bfs.induct)
  case (1 D accessible)
  have "reachable D \<subseteq> set accessible"
  proof
    fix q assume "q \<in> reachable D"
    then show "q \<in> set accessible"
    proof (induction rule: reachable.induct)
      case start
      with 1 show ?case by (simp add: bfs_inv_def)
    next
      case (step q symbol q')
      with 1 show ?case unfolding bfs_inv_def by auto
    qed
  qed
  with 1 show ?case by (auto simp: bfs_inv_def)
next
  case (2 D accessible state queue)
  obtain acc' queue' where f:
    "fold (visit (transitions D) state) (alphabet D) (accessible, queue) = (acc', queue')"
    by (cases "fold (visit (transitions D) state) (alphabet D) (accessible, queue)")
  from bfs_inv_step [OF "2.prems" f] have "bfs_inv D acc' queue'" .
  from "2.IH" [OF f [symmetric] this] f show ?case by simp
qed

lemma accessible_reachable:
  "set (get_accessible_states D) = reachable D" "distinct (get_accessible_states D)"
proof -
  have "bfs_inv D [start_state D] [start_state D]"
    by (simp add: bfs_inv_def reachable.start)
  from bfs_correct [OF this] show "set (get_accessible_states D) = reachable D"
    "distinct (get_accessible_states D)"
    by (simp_all add: get_accessible_states_def)
qed

text \<open>
  Claim C6: \<open>remove_inaccessible_states\<close> returns the automaton whose states are exactly
  the states reachable from the start state, each once; whose transitions are the
  transitions of the input with a reachable source and a reachable successor, in their
  order; whose final states are the final states of the input that are reachable; and
  whose start state and alphabet are those of the input.
\<close>

theorem C6_remove_inaccessible_states:
  "set (states (remove_inaccessible_states D)) = reachable D
   \<and> distinct (states (remove_inaccessible_states D))
   \<and> transitions (remove_inaccessible_states D) =
       filter (\<lambda>item. fst (fst item) \<in> reachable D \<and> snd item \<in> reachable D) (transitions D)
   \<and> set (final_states (remove_inaccessible_states D)) = set (final_states D) \<inter> reachable D
   \<and> start_state (remove_inaccessible_states D) = start_state D
   \<and> alphabet (remove_inaccessible_states D) = alphabet D"
  using accessible_reachable [of D]
  by (auto simp: remove_inaccessible_states_def Let_def)

subsection \<open>The structure of a refined partition\<close>

lemma groups_disjoint_same:
  "groups_disjoint gs \<Longrightarrow> g \<in> set gs \<Longrightarrow> h \<in> set gs \<Longrightarrow> set g \<inter> set h \<noteq> {} \<Longrightarrow> g = h"
proof (induction gs)
  case Nil
  then show ?case by simp
next
  case (Cons a gs)
  from Cons.prems(1) have d: "set a \<inter> \<Union> (set ` set gs) = {}" "groups_disjoint gs" by simp_all
  show ?case
  proof (cases "g = a")
    case ga: True
    show ?thesis
    proof (cases "h = a")
      case True
      with ga show ?thesis by simp
    next
      case False
      with Cons.prems(3) have "h \<in> set gs" by simp
      with d(1) ga Cons.prems(4) show ?thesis by blast
    qed
  next
    case gna: False
    with Cons.prems(2) have g: "g \<in> set gs" by simp
    show ?thesis
    proof (cases "h = a")
      case True
      with d(1) g Cons.prems(4) show ?thesis by blast
    next
      case False
      with Cons.prems(3) have "h \<in> set gs" by simp
      with Cons.IH [OF d(2) g] Cons.prems(4) show ?thesis by blast
    qed
  qed
qed

lemma concat_split_union:
  "groups_union (concat (map (split_group dfa partn) gs)) = groups_union gs"
  by (induction gs) (simp_all add: split_group_props(2))

lemma concat_split_disjoint:
  "groups_disjoint gs \<Longrightarrow> groups_disjoint (concat (map (split_group dfa partn) gs))"
proof (induction gs)
  case Nil
  then show ?case by simp
next
  case (Cons g gs)
  then have "set g \<inter> groups_union gs = {}" "groups_disjoint gs"
    by (simp_all add: groups_union_def)
  with Cons.IH show ?case
    by (simp add: groups_disjoint_append split_group_props(1,2) concat_split_union)
qed

lemma refine_union: "groups_union (refine_partition dfa partn) = groups_union partn"
  unfolding refine_partition_def by (rule concat_split_union)

lemma refine_disjoint:
  "groups_disjoint partn \<Longrightarrow> groups_disjoint (refine_partition dfa partn)"
  unfolding refine_partition_def by (rule concat_split_disjoint)

lemma refine_from_group:
  assumes "s \<in> set (refine_partition dfa partn)"
  obtains g where "g \<in> set partn" "s \<in> set (split_group dfa partn g)" "set s \<subseteq> set g"
proof -
  from assms obtain g where g: "g \<in> set partn" "s \<in> set (split_group dfa partn g)"
    by (auto simp: refine_partition_def)
  from g(2) split_group_props(2) [of dfa partn g] have "set s \<subseteq> set g"
    by (auto simp: groups_union_def)
  with g that show thesis by blast
qed

text \<open>
  The loop of \<open>minimize\<close> ends with a partition that one more refinement leaves as it is,
  and keeps what every refinement keeps.
\<close>

lemma refine_loop_stable:
  "list_all2 (\<lambda>p q. set p = set q)
     (refine_partition dfa (refine_loop dfa partn)) (refine_loop dfa partn)"
proof (induction dfa partn rule: refine_loop.induct)
  case (1 dfa partn)
  show ?case
  proof (cases "list_all2 (\<lambda>p q. set p = set q) (refine_partition dfa partn) partn")
    case True
    then show ?thesis by (simp add: refine_loop.simps [of dfa partn])
  next
    case False
    with 1 show ?thesis by (simp add: refine_loop.simps [of dfa partn])
  qed
qed

lemma refine_loop_keeps:
  "(\<And>p. P p \<Longrightarrow> P (refine_partition dfa p)) \<Longrightarrow> P partn \<Longrightarrow> P (refine_loop dfa partn)"
proof (induction dfa partn rule: refine_loop.induct)
  case (1 dfa partn)
  show ?case
  proof (cases "list_all2 (\<lambda>p q. set p = set q) (refine_partition dfa partn) partn")
    case True
    with "1.prems"(2) show ?thesis by (simp add: refine_loop.simps [of dfa partn])
  next
    case False
    from "1.prems" have "P (refine_partition dfa partn)" by blast
    from "1.IH" [OF False "1.prems"(1) this] False show ?thesis
      by (simp add: refine_loop.simps [of dfa partn])
  qed
qed

lemma refine_loop_nonempty:
  "\<forall>g \<in> set partn. g \<noteq> [] \<Longrightarrow> \<forall>g \<in> set (refine_loop dfa partn). g \<noteq> []"
  by (rule refine_loop_keeps [where P = "\<lambda>p. \<forall>g \<in> set p. g \<noteq> []"])
     (simp_all add: refine_groups_nonempty)

lemma refine_loop_disjoint:
  "groups_disjoint partn \<Longrightarrow> groups_disjoint (refine_loop dfa partn)"
  by (rule refine_loop_keeps [where P = groups_disjoint]) (simp_all add: refine_disjoint)

lemma refine_loop_union: "groups_union (refine_loop dfa partn) = groups_union partn"
  by (rule refine_loop_keeps [where P = "\<lambda>p. groups_union p = groups_union partn"])
     (simp_all add: refine_union)

lemma refine_loop_within:
  "\<forall>s \<in> set (refine_loop dfa partn). \<exists>g \<in> set partn. set s \<subseteq> set g"
proof (rule refine_loop_keeps [where P = "\<lambda>p. \<forall>s \<in> set p. \<exists>g \<in> set partn. set s \<subseteq> set g"])
  fix p assume p: "\<forall>s \<in> set p. \<exists>g \<in> set partn. set s \<subseteq> set g"
  show "\<forall>s \<in> set (refine_partition dfa p). \<exists>g \<in> set partn. set s \<subseteq> set g"
  proof
    fix s assume "s \<in> set (refine_partition dfa p)"
    then obtain h where "h \<in> set p" "set s \<subseteq> set h" by (rule refine_from_group)
    with p show "\<exists>g \<in> set partn. set s \<subseteq> set g" by blast
  qed
next
  show "\<forall>s \<in> set partn. \<exists>g \<in> set partn. set s \<subseteq> set g" by blast
qed

lemma initial_partition_props:
  "\<forall>g \<in> set (initial_partition dfa). g \<noteq> []"
  "groups_disjoint (initial_partition dfa)"
  "groups_union (initial_partition dfa) = set (final_states dfa) \<union> set (states dfa)"
  "\<forall>g \<in> set (initial_partition dfa).
     set g \<subseteq> set (final_states dfa) \<or> set g \<inter> set (final_states dfa) = {}"
proof -
  have f: "filter (\<lambda>state. state \<notin> set (final_states dfa)) (states dfa) = [] \<longleftrightarrow>
      set (states dfa) \<subseteq> set (final_states dfa)"
    by (auto simp: filter_empty_conv)
  show "\<forall>g \<in> set (initial_partition dfa). g \<noteq> []"
    by (auto simp: initial_partition_def Let_def)
  show "groups_disjoint (initial_partition dfa)"
    by (auto simp: initial_partition_def Let_def)
  show "groups_union (initial_partition dfa) = set (final_states dfa) \<union> set (states dfa)"
    using f by (auto simp: initial_partition_def Let_def)
  show "\<forall>g \<in> set (initial_partition dfa).
     set g \<subseteq> set (final_states dfa) \<or> set g \<inter> set (final_states dfa) = {}"
    by (auto simp: initial_partition_def Let_def)
qed

definition dfa01 :: "(string, string) DFA" where
  "dfa01 =
     \<lparr>states = [''q0'', ''q1'', ''q2'', ''q3''], alphabet = [''0'', ''1''],
      transitions =
        [((''q0'', ''0''), ''q1''), ((''q0'', ''1''), ''q3''),
         ((''q1'', ''0''), ''q1''), ((''q1'', ''1''), ''q2''),
         ((''q2'', ''0''), ''q1''), ((''q2'', ''1''), ''q3''),
         ((''q3'', ''0''), ''q1''), ((''q3'', ''1''), ''q3'')],
      start_state = ''q0'', final_states = [''q2'']\<rparr>"

text \<open>
  Claim C10: for groups that are non-empty and pairwise disjoint, every group returned
  by \<open>refine_partition\<close> is non-empty and lies in exactly one group of the input, the
  returned groups are pairwise disjoint, and their union is the union of the input's
  groups. So every group of the partition the loop of \<open>minimize\<close> ends with lies in one
  group of the first partition: its states are all final or all not final.
\<close>

theorem C10_refine_partition_structure:
  assumes "\<forall>g \<in> set partn. g \<noteq> []" and "groups_disjoint partn"
  shows "(\<forall>s \<in> set (refine_partition dfa partn).
            s \<noteq> [] \<and> (\<exists>!g. g \<in> set partn \<and> set s \<subseteq> set g))
       \<and> groups_disjoint (refine_partition dfa partn)
       \<and> groups_union (refine_partition dfa partn) = groups_union partn
       \<and> (\<forall>g \<in> set (refine_loop dfa (initial_partition dfa)).
            set g \<subseteq> set (final_states dfa) \<or> set g \<inter> set (final_states dfa) = {})"
proof (intro conjI ballI)
  fix s assume s: "s \<in> set (refine_partition dfa partn)"
  then show ne: "s \<noteq> []" using refine_groups_nonempty by blast
  from s obtain g where g: "g \<in> set partn" "set s \<subseteq> set g" by (rule refine_from_group)
  show "\<exists>!g. g \<in> set partn \<and> set s \<subseteq> set g"
  proof (rule ex1I [of _ g])
    show "g \<in> set partn \<and> set s \<subseteq> set g" using g by simp
  next
    fix h assume h: "h \<in> set partn \<and> set s \<subseteq> set h"
    with g ne have "set h \<inter> set g \<noteq> {}" by (cases s) auto
    with assms(2) h g(1) show "h = g" by (blast intro: groups_disjoint_same)
  qed
next
  show "groups_disjoint (refine_partition dfa partn)" using assms(2) by (rule refine_disjoint)
next
  show "groups_union (refine_partition dfa partn) = groups_union partn" by (rule refine_union)
next
  fix g assume "g \<in> set (refine_loop dfa (initial_partition dfa))"
  with refine_loop_within [of dfa "initial_partition dfa"]
  obtain h where h: "h \<in> set (initial_partition dfa)" "set g \<subseteq> set h" by blast
  with initial_partition_props(4) [of dfa]
  show "set g \<subseteq> set (final_states dfa) \<or> set g \<inter> set (final_states dfa) = {}" by blast
qed

theorem C10_refine_partition_structure_witness:
  "groups_disjoint [[''q2''], [''q0'', ''q1'', ''q3'']]
   \<and> refine_partition dfa01 [[''q2''], [''q0'', ''q1'', ''q3'']] = [[''q2''], [''q0'', ''q3''], [''q1'']]
   \<and> groups_disjoint (refine_partition dfa01 [[''q2''], [''q0'', ''q1'', ''q3'']])
   \<and> groups_union (refine_partition dfa01 [[''q2''], [''q0'', ''q1'', ''q3'']])
       = groups_union [[''q2''], [''q0'', ''q1'', ''q3'']]"
proof -
  have a: "\<forall>g \<in> set [[''q2''], [''q0'', ''q1'', ''q3'']]. g \<noteq> []" by simp
  have b: "groups_disjoint [[''q2''], [''q0'', ''q1'', ''q3'']]" by simp
  have c: "refine_partition dfa01 [[''q2''], [''q0'', ''q1'', ''q3'']]
      = [[''q2''], [''q0'', ''q3''], [''q1'']]"
    by code_simp
  from C10_refine_partition_structure [OF a b, of dfa01] b c show ?thesis by blast
qed

subsection \<open>Acceptance after pruning\<close>

lemma map_of_filter_keep:
  "map_of xs k = Some v \<Longrightarrow> P (k, v) \<Longrightarrow> map_of (filter P xs) k = Some v"
  by (induction xs) (auto split: if_splits)

lemma map_of_filter_none: "map_of xs k = None \<Longrightarrow> map_of (filter P xs) k = None"
  by (induction xs) (auto split: if_splits)

lemma pruned_transition:
  assumes "q \<in> reachable D" "a \<in> set (alphabet D)"
  shows "map_of (transitions (remove_inaccessible_states D)) (q, a) = map_of (transitions D) (q, a)"
proof (cases "map_of (transitions D) (q, a)")
  case None
  then show ?thesis
    by (simp add: remove_inaccessible_states_def Let_def map_of_filter_none)
next
  case (Some n)
  with assms have "n \<in> reachable D" by (blast intro: reachable.step)
  with assms(1) Some show ?thesis
    by (simp add: remove_inaccessible_states_def Let_def accessible_reachable(1)
        map_of_filter_keep)
qed

lemma run_reachable:
  "q \<in> reachable D \<Longrightarrow> set w \<subseteq> set (alphabet D) \<Longrightarrow> run (transitions D) q w = Some q' \<Longrightarrow>
     q' \<in> reachable D"
proof (induction w arbitrary: q)
  case Nil
  then show ?case by simp
next
  case (Cons a w)
  from Cons.prems(3) obtain n where n: "map_of (transitions D) (q, a) = Some n"
    "run (transitions D) n w = Some q'"
    by (auto split: option.splits)
  with Cons.prems(1,2) have "n \<in> reachable D" by (auto intro: reachable.step)
  with Cons.IH [OF this _ n(2)] Cons.prems(2) show ?case by simp
qed

lemma run_pruned:
  "q \<in> reachable D \<Longrightarrow> set w \<subseteq> set (alphabet D) \<Longrightarrow>
     run (transitions (remove_inaccessible_states D)) q w = run (transitions D) q w"
proof (induction w arbitrary: q)
  case Nil
  then show ?case by simp
next
  case (Cons a w)
  from Cons.prems have a: "a \<in> set (alphabet D)" and w: "set w \<subseteq> set (alphabet D)" by simp_all
  have t: "map_of (transitions (remove_inaccessible_states D)) (q, a)
      = map_of (transitions D) (q, a)"
    using Cons.prems(1) a by (rule pruned_transition)
  show ?case
  proof (cases "map_of (transitions D) (q, a)")
    case None
    with t show ?thesis by simp
  next
    case (Some n)
    with Cons.prems(1) a have "n \<in> reachable D" by (blast intro: reachable.step)
    from Cons.IH [OF this w] t Some show ?thesis by simp
  qed
qed

lemma accepts_pruned:
  assumes "set w \<subseteq> set (alphabet D)"
  shows "accepts (remove_inaccessible_states D) w = accepts D w"
proof -
  have s: "start_state (remove_inaccessible_states D) = start_state D"
    by (simp add: remove_inaccessible_states_def Let_def)
  have r: "run (transitions (remove_inaccessible_states D)) (start_state D) w
      = run (transitions D) (start_state D) w"
    using reachable.start assms by (rule run_pruned)
  show ?thesis
  proof (cases "run (transitions D) (start_state D) w")
    case None
    with r s show ?thesis by (simp add: accepts_def)
  next
    case (Some q')
    with reachable.start [of D] assms have "q' \<in> reachable D" by (blast intro: run_reachable)
    then have "q' \<in> set (final_states (remove_inaccessible_states D))
        \<longleftrightarrow> q' \<in> set (final_states D)"
      by (simp add: remove_inaccessible_states_def Let_def accessible_reachable(1))
    with Some r s show ?thesis by (simp add: accepts_def)
  qed
qed

subsection \<open>The names given to the groups\<close>

lemma find_group_None: "find_group gs q n = None \<longleftrightarrow> q \<notin> groups_union gs"
  by (induction gs arbitrary: n) auto

lemma find_group_Some:
  "find_group gs q n = Some i \<Longrightarrow> n \<le> i \<and> i - n < length gs \<and> q \<in> set (gs ! (i - n))"
proof (induction gs arbitrary: n)
  case Nil
  then show ?case by simp
next
  case (Cons g gs)
  show ?case
  proof (cases "q \<in> set g")
    case True
    with Cons.prems show ?thesis by simp
  next
    case False
    with Cons.prems have "find_group gs q (Suc n) = Some i" by simp
    from Cons.IH [OF this] have "Suc n \<le> i" "i - Suc n < length gs" "q \<in> set (gs ! (i - Suc n))"
      by simp_all
    moreover from \<open>Suc n \<le> i\<close> have "i - n = Suc (i - Suc n)" by simp
    ultimately show ?thesis by simp
  qed
qed

lemma fold_setitem_const:
  "map_of (fold (\<lambda>state. setitem state v) g m) q = (if q \<in> set g then Some v else map_of m q)"
  by (induction g arbitrary: m) (auto simp: setitem_def update_conv')

lemma state_name_inj: "state_name i = state_name j \<longleftrightarrow> i = j"
  by (auto simp: state_name_def dest: str_nat_inj)

lemma name_group_eq:
  "map_of (name_group (n, g) m) q = (if q \<in> set g then Some (state_name n) else map_of m q)"
  by (simp add: name_group_def fold_setitem_const)

lemma state_map_fold:
  "groups_disjoint gs \<Longrightarrow>
     map_of (fold name_group (enumerate n gs) m0) q
     = (case find_group gs q n of Some i \<Rightarrow> Some (state_name i) | None \<Rightarrow> map_of m0 q)"
proof (induction gs arbitrary: n m0)
  case Nil
  then show ?case by simp
next
  case (Cons g gs)
  from Cons.prems have d: "set g \<inter> groups_union gs = {}" "groups_disjoint gs"
    by (simp_all add: groups_union_def)
  show ?case
  proof (cases "q \<in> set g")
    case True
    with d(1) have "q \<notin> groups_union gs" by blast
    then have "find_group gs q (Suc n) = None" by (simp add: find_group_None)
    with True show ?thesis
      by (simp add: Cons.IH [OF d(2)] name_group_eq)
  next
    case False
    then show ?thesis
      by (simp add: Cons.IH [OF d(2)] name_group_eq split: option.splits)
  qed
qed

lemma state_map_of_eq:
  "groups_disjoint partn \<Longrightarrow>
     map_of (state_map_of partn) q = map_option state_name (find_group partn q 0)"
  unfolding state_map_of_def by (simp add: state_map_fold split: option.splits)

definition same_group :: "'q list list \<Rightarrow> 'q \<Rightarrow> 'q \<Rightarrow> bool" where
  "same_group partn q q' \<longleftrightarrow> list_ex (\<lambda>g. q \<in> set g \<and> q' \<in> set g) partn"

lemma find_group_in_group:
  "groups_disjoint gs \<Longrightarrow> g \<in> set gs \<Longrightarrow> q \<in> set g \<Longrightarrow> q' \<in> set g \<Longrightarrow>
     find_group gs q n = find_group gs q' n"
proof (induction gs arbitrary: n)
  case Nil
  then show ?case by simp
next
  case (Cons a gs)
  from Cons.prems(1) have d: "set a \<inter> \<Union> (set ` set gs) = {}" "groups_disjoint gs" by simp_all
  show ?case
  proof (cases "g = a")
    case True
    with Cons.prems(3,4) show ?thesis by simp
  next
    case False
    with Cons.prems(2) have g: "g \<in> set gs" by simp
    with d(1) Cons.prems(3,4) have "q \<notin> set a" "q' \<notin> set a" by blast+
    with Cons.IH [OF d(2) g Cons.prems(3,4)] show ?thesis by simp
  qed
qed

lemma find_group_same:
  assumes "groups_disjoint partn" "q \<in> groups_union partn" "q' \<in> groups_union partn"
  shows "find_group partn q 0 = find_group partn q' 0 \<longleftrightarrow> same_group partn q q'"
proof
  assume eq: "find_group partn q 0 = find_group partn q' 0"
  from assms(2) obtain i where i: "find_group partn q 0 = Some i"
    using find_group_None [of partn q 0] by (cases "find_group partn q 0") auto
  from find_group_Some [OF i] have "i < length partn" "q \<in> set (partn ! i)" by simp_all
  moreover from find_group_Some [of partn q' 0 i] eq i have "q' \<in> set (partn ! i)" by simp
  ultimately show "same_group partn q q'"
    unfolding same_group_def list_ex_iff using nth_mem by blast
next
  assume "same_group partn q q'"
  then obtain g where "g \<in> set partn" "q \<in> set g" "q' \<in> set g"
    unfolding same_group_def list_ex_iff by blast
  with assms(1) show "find_group partn q 0 = find_group partn q' 0"
    by (rule find_group_in_group)
qed

lemma state_map_same:
  assumes "groups_disjoint partn" "q \<in> groups_union partn" "q' \<in> groups_union partn"
  shows "map_of (state_map_of partn) q = map_of (state_map_of partn) q' \<longleftrightarrow> same_group partn q q'"
proof -
  from assms(2,3) obtain i j where "find_group partn q 0 = Some i" "find_group partn q' 0 = Some j"
    using find_group_None [of partn _ 0] by (metis not_None_eq)
  then have "map_of (state_map_of partn) q = map_of (state_map_of partn) q'
      \<longleftrightarrow> find_group partn q 0 = find_group partn q' 0"
    by (simp add: state_map_of_eq [OF assms(1)] state_name_inj)
  with find_group_same [OF assms] show ?thesis by simp
qed

lemma state_map_defined:
  assumes "groups_disjoint partn" "q \<in> groups_union partn"
  shows "\<exists>r. map_of (state_map_of partn) q = Some r"
proof -
  from assms(2) obtain i where "find_group partn q 0 = Some i"
    using find_group_None [of partn q 0] by (cases "find_group partn q 0") auto
  then show ?thesis by (simp add: state_map_of_eq [OF assms(1)])
qed

subsection \<open>A partition that refinement leaves unchanged\<close>

lemma split_all_single:
  "\<forall>g \<in> set gs. g \<noteq> [] \<Longrightarrow> length (concat (map (split_group dfa partn) gs)) = length gs \<Longrightarrow>
     g \<in> set gs \<Longrightarrow> length (split_group dfa partn g) = 1"
proof (induction gs)
  case Nil
  then show ?case by simp
next
  case (Cons a gs)
  from Cons.prems(1) have ne: "a \<noteq> []" "\<forall>g \<in> set gs. g \<noteq> []" by simp_all
  have rest: "length gs \<le> length (concat (map (split_group dfa partn) gs))"
    using ne(2) by (rule concat_split_length)
  have "1 \<le> length (split_group dfa partn a)"
    using split_group_nonempty [OF ne(1), of dfa partn]
    by (cases "split_group dfa partn a") auto
  with rest Cons.prems(2)
  have one: "length (split_group dfa partn a) = 1"
    and eq: "length (concat (map (split_group dfa partn) gs)) = length gs"
    by simp_all
  show ?case
  proof (cases "g = a")
    case True
    with one show ?thesis by simp
  next
    case False
    with Cons.prems(3) have "g \<in> set gs" by simp
    with Cons.IH [OF ne(2) eq] show ?thesis by simp
  qed
qed

lemma stable_signature:
  assumes ne: "\<forall>g \<in> set partn. g \<noteq> []"
    and stable: "list_all2 (\<lambda>p q. set p = set q) (refine_partition dfa partn) partn"
    and same: "same_group partn q q'"
  shows "signature dfa partn q = signature dfa partn q'"
proof -
  from same obtain g where g: "g \<in> set partn" "q \<in> set g" "q' \<in> set g"
    unfolding same_group_def list_ex_iff by blast
  from stable have "length (concat (map (split_group dfa partn) partn)) = length partn"
    unfolding refine_partition_def by (rule list_all2_lengthD)
  from split_all_single [OF ne this g(1)] obtain s where s: "split_group dfa partn g = [s]"
    by (cases "split_group dfa partn g") auto
  with split_group_props(2) [of dfa partn g] have sg: "set s = set g" by simp
  have "s \<in> set (split_group dfa partn g)" using s by simp
  from split_group_same [OF this, of q q'] sg g show ?thesis by simp
qed

lemma concat_singletons:
  "\<forall>a \<in> set xs. length (f a) = 1 \<and> length (g a) = 1 \<Longrightarrow>
     concat (map f xs) = concat (map g xs) \<Longrightarrow> a \<in> set xs \<Longrightarrow> f a = g a"
proof (induction xs)
  case Nil
  then show ?case by simp
next
  case (Cons x xs)
  from Cons.prems(1) have "length (f x) = length (g x)" by simp
  with Cons.prems(2) have "f x = g x" "concat (map f xs) = concat (map g xs)" by simp_all
  with Cons show ?case by auto
qed

lemma signature_entry_single:
  assumes "\<forall>n. map_of (transitions dfa) (q, a) = Some n \<longrightarrow> n \<in> groups_union partn"
  shows "length (signature_entry dfa partn q a) = 1"
proof (cases "map_of (transitions dfa) (q, a)")
  case None
  then show ?thesis by (simp add: signature_entry_def)
next
  case (Some n)
  with assms have "n \<in> groups_union partn" by simp
  then obtain i where "find_group partn n 0 = Some i"
    using find_group_None [of partn n 0] by (cases "find_group partn n 0") auto
  with Some show ?thesis by (simp add: signature_entry_def)
qed

lemma signature_entry_eq:
  assumes "signature_entry dfa partn q a = signature_entry dfa partn q' a"
    and "\<forall>n. map_of (transitions dfa) (q, a) = Some n \<longrightarrow> n \<in> groups_union partn"
    and "\<forall>n. map_of (transitions dfa) (q', a) = Some n \<longrightarrow> n \<in> groups_union partn"
  shows "rel_option (\<lambda>n n'. find_group partn n 0 = find_group partn n' 0)
           (map_of (transitions dfa) (q, a)) (map_of (transitions dfa) (q', a))"
proof -
  have some: "\<exists>i. find_group partn n 0 = Some i" if "n \<in> groups_union partn" for n
    using that find_group_None [of partn n 0] by (cases "find_group partn n 0") auto
  show ?thesis
  proof (cases "map_of (transitions dfa) (q, a)")
    case qn: None
    show ?thesis
    proof (cases "map_of (transitions dfa) (q', a)")
      case None
      with qn show ?thesis by simp
    next
      case (Some n')
      with assms(3) some obtain j where "find_group partn n' 0 = Some j" by blast
      with assms(1) qn Some show ?thesis by (simp add: signature_entry_def)
    qed
  next
    case qs: (Some n)
    with assms(2) some obtain i where i: "find_group partn n 0 = Some i" by blast
    show ?thesis
    proof (cases "map_of (transitions dfa) (q', a)")
      case None
      with assms(1) qs i show ?thesis by (simp add: signature_entry_def)
    next
      case (Some n')
      with assms(3) some obtain j where "find_group partn n' 0 = Some j" by blast
      with assms(1) qs Some i show ?thesis by (simp add: signature_entry_def)
    qed
  qed
qed

text \<open>
  What \<open>create_minimized_dfa\<close> needs of a partition: non-empty disjoint groups that a
  refinement leaves as they are and that do not mix final and other states, and which
  cover every state the automaton mentions; and a transition dict with each key once.
\<close>

definition quotient_ready :: "('q, 'a) DFA \<Rightarrow> 'q list list \<Rightarrow> bool" where
  "quotient_ready dfa partn \<longleftrightarrow>
     (\<forall>g \<in> set partn. g \<noteq> []) \<and> groups_disjoint partn \<and>
     list_all2 (\<lambda>p q. set p = set q) (refine_partition dfa partn) partn \<and>
     (\<forall>g \<in> set partn. set g \<subseteq> set (final_states dfa) \<or> set g \<inter> set (final_states dfa) = {}) \<and>
     distinct (map fst (transitions dfa)) \<and>
     start_state dfa \<in> groups_union partn \<and>
     set (states dfa) \<subseteq> groups_union partn \<and>
     set (final_states dfa) \<subseteq> groups_union partn \<and>
     (\<forall>item \<in> set (transitions dfa).
        fst (fst item) \<in> groups_union partn \<and> snd item \<in> groups_union partn)"

definition rep :: "'q list list \<Rightarrow> 'q \<Rightarrow> string" where
  "rep partn q = (case map_of (state_map_of partn) q of Some r \<Rightarrow> r | None \<Rightarrow> [])"

lemma rep_defined:
  "quotient_ready dfa partn \<Longrightarrow> q \<in> groups_union partn \<Longrightarrow>
     map_of (state_map_of partn) q = Some (rep partn q)"
  using state_map_defined [of partn q] by (auto simp: quotient_ready_def rep_def)

lemma rep_same:
  assumes "quotient_ready dfa partn" "q \<in> groups_union partn" "q' \<in> groups_union partn"
  shows "rep partn q = rep partn q' \<longleftrightarrow> same_group partn q q'"
proof -
  from assms have "groups_disjoint partn" by (simp add: quotient_ready_def)
  from state_map_same [OF this assms(2,3)] rep_defined [OF assms(1,2)] rep_defined [OF assms(1,3)]
  show ?thesis by simp
qed

lemma target_in_union:
  "quotient_ready dfa partn \<Longrightarrow> map_of (transitions dfa) (q, a) = Some n \<Longrightarrow>
     n \<in> groups_union partn"
  unfolding quotient_ready_def by (auto dest!: map_of_SomeD)

lemma same_group_step:
  assumes ok: "quotient_ready dfa partn" and same: "same_group partn q q'"
    and a: "a \<in> set (alphabet dfa)"
    and q: "q \<in> groups_union partn" "q' \<in> groups_union partn"
  shows "rel_option (\<lambda>n n'. rep partn n = rep partn n')
           (map_of (transitions dfa) (q, a)) (map_of (transitions dfa) (q', a))"
proof -
  from ok have ne: "\<forall>g \<in> set partn. g \<noteq> []"
    and stable: "list_all2 (\<lambda>p q. set p = set q) (refine_partition dfa partn) partn"
    and dis: "groups_disjoint partn"
    by (simp_all add: quotient_ready_def)
  have sig: "signature dfa partn q = signature dfa partn q'"
    using ne stable same by (rule stable_signature)
  have single: "length (signature_entry dfa partn x b) = 1" for x b
    by (rule signature_entry_single) (use ok in \<open>blast intro: target_in_union\<close>)
  have "signature_entry dfa partn q a = signature_entry dfa partn q' a"
    using _ sig [unfolded signature_def] a by (rule concat_singletons) (simp add: single)
  then have r: "rel_option (\<lambda>n n'. find_group partn n 0 = find_group partn n' 0)
           (map_of (transitions dfa) (q, a)) (map_of (transitions dfa) (q', a))"
    by (rule signature_entry_eq) (use ok in \<open>blast intro: target_in_union\<close>)+
  show ?thesis
  proof (cases "map_of (transitions dfa) (q, a)")
    case None
    with r show ?thesis by (cases "map_of (transitions dfa) (q', a)") simp_all
  next
    case (Some n)
    with r obtain n' where n': "map_of (transitions dfa) (q', a) = Some n'"
      "find_group partn n 0 = find_group partn n' 0"
      by (cases "map_of (transitions dfa) (q', a)") simp_all
    then have "rep partn n = rep partn n'"
      by (simp add: rep_def state_map_of_eq [OF dis])
    with Some n'(1) show ?thesis by simp
  qed
qed

subsection \<open>The quotient automaton\<close>

text \<open>A transition of the automaton, with its states replaced by the names of their groups.\<close>

definition img :: "'q list list \<Rightarrow> ('q \<times> 'a) \<times> 'q \<Rightarrow> (string \<times> 'a) \<times> string" where
  "img partn item = ((rep partn (fst (fst item)), snd (fst item)), rep partn (snd item))"

lemma map_transitions_fold:
  assumes ok: "quotient_ready dfa partn"
  shows "\<forall>item \<in> set items. fst (fst item) \<in> groups_union partn \<and> snd item \<in> groups_union partn \<Longrightarrow>
     \<exists>T. for_each (map_transition (state_map_of partn)) items T0 = Inr T \<and>
         map_of T = map_of T0 ++ map_of (rev (map (img partn) items))"
proof (induction items arbitrary: T0)
  case Nil
  then show ?case by simp
next
  case (Cons x items)
  from Cons.prems have x: "fst (fst x) \<in> groups_union partn" "snd x \<in> groups_union partn"
    and rest: "\<forall>item \<in> set items. fst (fst item) \<in> groups_union partn \<and> snd item \<in> groups_union partn"
    by simp_all
  let ?T1 = "setitem (fst (img partn x)) (snd (img partn x)) T0"
  have step: "map_transition (state_map_of partn) x T0 = Inr ?T1"
    using rep_defined [OF ok x(1)] rep_defined [OF ok x(2)]
    by (simp add: map_transition_def getitem_def img_def)
  from Cons.IH [OF rest, of ?T1] obtain T
    where T: "for_each (map_transition (state_map_of partn)) items ?T1 = Inr T"
      "map_of T = map_of ?T1 ++ map_of (rev (map (img partn) items))" by blast
  have "map_of ?T1 ++ map_of (rev (map (img partn) items))
      = map_of T0 ++ map_of (rev (map (img partn) (x # items)))"
  proof (rule ext)
    fix k
    show "(map_of ?T1 ++ map_of (rev (map (img partn) items))) k
        = (map_of T0 ++ map_of (rev (map (img partn) (x # items)))) k"
      by (cases "map_of (rev (map (img partn) items)) k")
         (simp_all add: map_add_def setitem_def update_conv')
  qed
  with T step show ?case by simp
qed

lemma quotient_transition:
  assumes ok: "quotient_ready dfa partn" and q: "q \<in> groups_union partn"
    and a: "a \<in> set (alphabet dfa)"
  shows "map_of (rev (map (img partn) (transitions dfa))) (rep partn q, a)
       = map_option (rep partn) (map_of (transitions dfa) (q, a))"
proof -
  let ?L = "rev (map (img partn) (transitions dfa))"
  from ok have dist: "distinct (map fst (transitions dfa))" by (simp add: quotient_ready_def)
  have from_item: "rel_option (\<lambda>n n'. rep partn n = rep partn n')
      (Some (snd item)) (map_of (transitions dfa) (q, a))"
    if item: "item \<in> set (transitions dfa)" and k: "fst (img partn item) = (rep partn q, a)" for item
  proof -
    obtain s b n where i: "item = ((s, b), n)" by (metis prod.collapse)
    with k have b: "b = a" and r: "rep partn s = rep partn q" by (simp_all add: img_def)
    from ok item i have s: "s \<in> groups_union partn" by (auto simp: quotient_ready_def)
    with r q ok have "same_group partn s q" by (simp add: rep_same)
    from same_group_step [OF ok this a s q]
    have "rel_option (\<lambda>n n'. rep partn n = rep partn n')
        (map_of (transitions dfa) (s, a)) (map_of (transitions dfa) (q, a))" .
    moreover from dist item i b have "map_of (transitions dfa) (s, a) = Some n" by simp
    ultimately show ?thesis using i by simp
  qed
  show ?thesis
  proof (cases "map_of (transitions dfa) (q, a)")
    case None
    have "map_of ?L (rep partn q, a) = None"
    proof (rule ccontr)
      assume "map_of ?L (rep partn q, a) \<noteq> None"
      then obtain v where "map_of ?L (rep partn q, a) = Some v" by blast
      then have "((rep partn q, a), v) \<in> set ?L" by (rule map_of_SomeD)
      then obtain item where "item \<in> set (transitions dfa)" "img partn item = ((rep partn q, a), v)"
        by auto
      with from_item [of item] None show False by simp
    qed
    with None show ?thesis by simp
  next
    case (Some nq)
    then have "((q, a), nq) \<in> set (transitions dfa)" by (rule map_of_SomeD)
    then have "img partn ((q, a), nq) \<in> set ?L" by simp
    then have "(rep partn q, a) \<in> fst ` set ?L" by (force simp: img_def)
    then obtain v where v: "map_of ?L (rep partn q, a) = Some v"
      by (cases "map_of ?L (rep partn q, a)") (auto simp: map_of_eq_None_iff)
    then have "((rep partn q, a), v) \<in> set ?L" by (rule map_of_SomeD)
    then obtain item where item: "item \<in> set (transitions dfa)"
      "img partn item = ((rep partn q, a), v)" by auto
    with from_item [of item] Some have "rep partn (snd item) = rep partn nq" by simp
    moreover from item(2) have "v = rep partn (snd item)" by (simp add: img_def)
    ultimately show ?thesis using v Some by simp
  qed
qed

lemma quotient_run:
  assumes ok: "quotient_ready dfa partn"
    and T: "map_of T = map_of (rev (map (img partn) (transitions dfa)))"
  shows "q \<in> groups_union partn \<Longrightarrow> set w \<subseteq> set (alphabet dfa) \<Longrightarrow>
     run T (rep partn q) w = map_option (rep partn) (run (transitions dfa) q w) \<and>
     (\<forall>q'. run (transitions dfa) q w = Some q' \<longrightarrow> q' \<in> groups_union partn)"
proof (induction w arbitrary: q)
  case Nil
  then show ?case by simp
next
  case (Cons a w)
  from Cons.prems have a: "a \<in> set (alphabet dfa)" and w: "set w \<subseteq> set (alphabet dfa)" by simp_all
  have t: "map_of T (rep partn q, a) = map_option (rep partn) (map_of (transitions dfa) (q, a))"
    unfolding T using ok Cons.prems(1) a by (rule quotient_transition)
  show ?case
  proof (cases "map_of (transitions dfa) (q, a)")
    case None
    with t show ?thesis by simp
  next
    case (Some n)
    with ok have "n \<in> groups_union partn" by (rule target_in_union)
    from Cons.IH [OF this w] t Some show ?thesis by simp
  qed
qed

lemma map_states_fold:
  assumes ok: "quotient_ready dfa partn"
  shows "set xs \<subseteq> groups_union partn \<Longrightarrow>
     \<exists>R. for_each (\<lambda>state acc. case getitem (state_map_of partn) state of
                                Inl e \<Rightarrow> Inl e
                              | Inr r \<Rightarrow> Inr (set_add r acc)) xs acc = Inr R \<and>
         set R = set acc \<union> rep partn ` set xs \<and> (distinct acc \<longrightarrow> distinct R)"
proof (induction xs arbitrary: acc)
  case Nil
  then show ?case by simp
next
  case (Cons x xs)
  from Cons.prems have x: "x \<in> groups_union partn" and xs: "set xs \<subseteq> groups_union partn"
    by simp_all
  from Cons.IH [OF xs, of "set_add (rep partn x) acc"] obtain R where
    "for_each (\<lambda>state acc. case getitem (state_map_of partn) state of
                                Inl e \<Rightarrow> Inl e
                              | Inr r \<Rightarrow> Inr (set_add r acc)) xs (set_add (rep partn x) acc) = Inr R"
    "set R = set (set_add (rep partn x) acc) \<union> rep partn ` set xs"
    "distinct (set_add (rep partn x) acc) \<longrightarrow> distinct R" by blast
  then show ?case
    using rep_defined [OF ok x] by (auto simp: getitem_def set_add_def split: if_splits)
qed

lemma map_states_eq:
  assumes "quotient_ready dfa partn" "set xs \<subseteq> groups_union partn"
  shows "\<exists>R. map_states (state_map_of partn) xs = Inr R \<and> set R = rep partn ` set xs \<and> distinct R"
  using map_states_fold [OF assms, of "[]"] unfolding map_states_def by auto

lemma create_minimized_dfa_fields:
  assumes ok: "quotient_ready dfa partn"
  shows "\<exists>M. create_minimized_dfa dfa partn = Inr M \<and>
           set (states M) = rep partn ` set (states dfa) \<and> distinct (states M) \<and>
           alphabet M = alphabet dfa \<and>
           map_of (transitions M) = map_of (rev (map (img partn) (transitions dfa))) \<and>
           start_state M = rep partn (start_state dfa) \<and>
           set (final_states M) = rep partn ` set (final_states dfa)"
proof -
  from ok have u: "set (states dfa) \<subseteq> groups_union partn"
    "set (final_states dfa) \<subseteq> groups_union partn" "start_state dfa \<in> groups_union partn"
    "\<forall>item \<in> set (transitions dfa).
        fst (fst item) \<in> groups_union partn \<and> snd item \<in> groups_union partn"
    by (simp_all add: quotient_ready_def)
  from map_states_eq [OF ok u(1)] obtain S where S:
    "map_states (state_map_of partn) (states dfa) = Inr S"
    "set S = rep partn ` set (states dfa)" "distinct S" by blast
  from map_states_eq [OF ok u(2)] obtain F where F:
    "map_states (state_map_of partn) (final_states dfa) = Inr F"
    "set F = rep partn ` set (final_states dfa)" by blast
  from map_transitions_fold [OF ok u(4), of "[]"] obtain T where T:
    "for_each (map_transition (state_map_of partn)) (transitions dfa) [] = Inr T"
    "map_of T = map_of (rev (map (img partn) (transitions dfa)))" by auto
  have "create_minimized_dfa dfa partn =
      Inr \<lparr>states = S, alphabet = alphabet dfa, transitions = T,
           start_state = rep partn (start_state dfa), final_states = F\<rparr>"
    using S(1) F(1) T(1) rep_defined [OF ok u(3)]
    by (simp add: create_minimized_dfa_def Let_def getitem_def)
  with S F T show ?thesis by simp
qed

lemma quotient_final:
  assumes ok: "quotient_ready dfa partn" and q: "q \<in> groups_union partn"
  shows "rep partn q \<in> rep partn ` set (final_states dfa) \<longleftrightarrow> q \<in> set (final_states dfa)"
proof
  assume "rep partn q \<in> rep partn ` set (final_states dfa)"
  then obtain f where f: "f \<in> set (final_states dfa)" "rep partn q = rep partn f" by blast
  with ok have "f \<in> groups_union partn" by (auto simp: quotient_ready_def)
  with ok q f(2) have "same_group partn q f" by (simp add: rep_same)
  then obtain g where g: "g \<in> set partn" "q \<in> set g" "f \<in> set g"
    unfolding same_group_def list_ex_iff by blast
  from ok g(1) have "set g \<subseteq> set (final_states dfa) \<or> set g \<inter> set (final_states dfa) = {}"
    unfolding quotient_ready_def by blast
  with g f(1) show "q \<in> set (final_states dfa)" by blast
next
  assume "q \<in> set (final_states dfa)"
  then show "rep partn q \<in> rep partn ` set (final_states dfa)" by simp
qed

lemma quotient_accepts:
  assumes ok: "quotient_ready dfa partn" and w: "set w \<subseteq> set (alphabet dfa)"
    and M: "create_minimized_dfa dfa partn = Inr M"
  shows "accepts M w = accepts dfa w"
proof -
  from create_minimized_dfa_fields [OF ok] M
  have T: "map_of (transitions M) = map_of (rev (map (img partn) (transitions dfa)))"
    and s: "start_state M = rep partn (start_state dfa)"
    and f: "set (final_states M) = rep partn ` set (final_states dfa)" by auto
  from ok have st: "start_state dfa \<in> groups_union partn" by (simp add: quotient_ready_def)
  from quotient_run [OF ok T st w]
  have r: "run (transitions M) (rep partn (start_state dfa)) w
      = map_option (rep partn) (run (transitions dfa) (start_state dfa) w)"
    and u: "\<forall>q'. run (transitions dfa) (start_state dfa) w = Some q' \<longrightarrow> q' \<in> groups_union partn"
    by simp_all
  show ?thesis
  proof (cases "run (transitions dfa) (start_state dfa) w")
    case None
    with r s show ?thesis by (simp add: accepts_def)
  next
    case (Some q')
    with u have "q' \<in> groups_union partn" by simp
    from quotient_final [OF ok this] Some r s f show ?thesis by (simp add: accepts_def)
  qed
qed

subsection \<open>minimize\<close>

lemma pruned_fields:
  "set (states (remove_inaccessible_states D)) = reachable D"
  "set (final_states (remove_inaccessible_states D)) \<subseteq> reachable D"
  "start_state (remove_inaccessible_states D) \<in> reachable D"
  "alphabet (remove_inaccessible_states D) = alphabet D"
  "\<forall>item \<in> set (transitions (remove_inaccessible_states D)).
     fst (fst item) \<in> reachable D \<and> snd item \<in> reachable D"
  "distinct (map fst (transitions D)) \<Longrightarrow>
     distinct (map fst (transitions (remove_inaccessible_states D)))"
  by (auto simp: remove_inaccessible_states_def Let_def accessible_reachable(1)
      reachable.start distinct_map_filter)

lemma minimize_ready:
  assumes "distinct (map fst (transitions D))"
  shows "quotient_ready (remove_inaccessible_states D)
           (refine_loop (remove_inaccessible_states D)
              (initial_partition (remove_inaccessible_states D)))"
proof -
  let ?P = "remove_inaccessible_states D"
  let ?p = "refine_loop ?P (initial_partition ?P)"
  have u: "groups_union ?p = reachable D"
    using pruned_fields(1,2) [of D]
    by (auto simp: refine_loop_union initial_partition_props(3))
  have "\<forall>g \<in> set ?p. g \<noteq> []"
    by (rule refine_loop_nonempty) (rule initial_partition_props(1))
  moreover have "groups_disjoint ?p"
    by (rule refine_loop_disjoint) (rule initial_partition_props(2))
  moreover have "list_all2 (\<lambda>p q. set p = set q) (refine_partition ?P ?p) ?p"
    by (rule refine_loop_stable)
  moreover have "\<forall>g \<in> set ?p. set g \<subseteq> set (final_states ?P) \<or> set g \<inter> set (final_states ?P) = {}"
  proof
    fix g assume "g \<in> set ?p"
    with refine_loop_within [of ?P "initial_partition ?P"]
    obtain h where "h \<in> set (initial_partition ?P)" "set g \<subseteq> set h" by blast
    with initial_partition_props(4) [of ?P]
    show "set g \<subseteq> set (final_states ?P) \<or> set g \<inter> set (final_states ?P) = {}" by blast
  qed
  moreover have "distinct (map fst (transitions ?P))"
    using assms by (rule pruned_fields(6))
  moreover have "start_state ?P \<in> groups_union ?p"
    "set (states ?P) \<subseteq> groups_union ?p" "set (final_states ?P) \<subseteq> groups_union ?p"
    "\<forall>item \<in> set (transitions ?P). fst (fst item) \<in> groups_union ?p \<and> snd item \<in> groups_union ?p"
    unfolding u using pruned_fields [of D] by simp_all
  ultimately show ?thesis unfolding quotient_ready_def by blast
qed

lemma minimize_cases:
  obtains (small) "length (states (remove_inaccessible_states D)) \<le> 1"
      "minimize D = Inr (remove_inaccessible_states D)"
  | (quotient) "1 < length (states (remove_inaccessible_states D))"
      "minimize D = create_minimized_dfa (remove_inaccessible_states D)
         (refine_loop (remove_inaccessible_states D)
            (initial_partition (remove_inaccessible_states D)))"
  by (cases "length (states (remove_inaccessible_states D)) \<le> 1")
     (simp_all add: minimize_def Let_def)

text \<open>
  Claim C2: for a DFA whose transition dict has every key once, \<open>minimize\<close> returns an
  automaton, and on every input string over the alphabet that automaton accepts if and
  only if the given one does.
\<close>

theorem C2_minimize_accepts:
  assumes "distinct (map fst (transitions D))" and "set w \<subseteq> set (alphabet D)"
  shows "\<exists>M. minimize D = Inr M \<and> (accepts M w \<longleftrightarrow> accepts D w)"
proof (cases D rule: minimize_cases)
  case small
  with accepts_pruned [OF assms(2)] show ?thesis by simp
next
  case quotient
  let ?P = "remove_inaccessible_states D"
  let ?p = "refine_loop ?P (initial_partition ?P)"
  have ok: "quotient_ready ?P ?p" using assms(1) by (rule minimize_ready)
  from create_minimized_dfa_fields [OF ok] obtain M where M: "create_minimized_dfa ?P ?p = Inr M"
    by blast
  have w: "set w \<subseteq> set (alphabet ?P)" using assms(2) by (simp add: pruned_fields(4))
  from quotient_accepts [OF ok w M] accepts_pruned [OF assms(2)]
  have "accepts M w \<longleftrightarrow> accepts D w" by simp
  with M quotient show ?thesis by simp
qed

theorem C2_minimize_accepts_witness:
  "distinct (map fst (transitions dfa01))
   \<and> set [''0'', ''0'', ''1''] \<subseteq> set (alphabet dfa01)
   \<and> accepts dfa01 [''0'', ''0'', ''1'']
   \<and> (\<exists>M. minimize dfa01 = Inr M \<and> accepts M [''0'', ''0'', ''1''])"
proof -
  have a: "distinct (map fst (transitions dfa01))" by (simp add: dfa01_def)
  have b: "set [''0'', ''0'', ''1''] \<subseteq> set (alphabet dfa01)" by (simp add: dfa01_def)
  have c: "accepts dfa01 [''0'', ''0'', ''1'']" by (simp add: dfa01_def accepts_def)
  from C2_minimize_accepts [OF a b] a b c show ?thesis by blast
qed

subsection \<open>States that a string tells apart\<close>

text \<open>
  What reading a string from a state shows: nothing when a transition is missing on the
  way, and otherwise whether the state reached is final. \<open>refine_partition\<close> separates
  a state that lacks a transition on a symbol (signature entry \<open>-1\<close>) from a state that
  has one, so the missing transition is part of what it compares.
\<close>

definition outcome_from :: "('q, 'a) DFA \<Rightarrow> 'q \<Rightarrow> 'a list \<Rightarrow> bool option" where
  "outcome_from dfa q w =
     map_option (\<lambda>q'. q' \<in> set (final_states dfa)) (run (transitions dfa) q w)"

definition outcome :: "('q, 'a) DFA \<Rightarrow> 'a list \<Rightarrow> bool option" where
  "outcome dfa w = outcome_from dfa (start_state dfa) w"

definition distinguishable :: "('q, 'a) DFA \<Rightarrow> 'q \<Rightarrow> 'q \<Rightarrow> bool" where
  "distinguishable dfa q q' \<longleftrightarrow>
     (\<exists>w. set w \<subseteq> set (alphabet dfa) \<and> outcome_from dfa q w \<noteq> outcome_from dfa q' w)"

definition told_apart :: "('q, 'a) DFA \<Rightarrow> 'q list list \<Rightarrow> bool" where
  "told_apart dfa partn \<longleftrightarrow>
     (\<forall>q \<in> groups_union partn. \<forall>q' \<in> groups_union partn.
        \<not> same_group partn q q' \<longrightarrow> distinguishable dfa q q')"

lemma outcome_from_Nil [simp]: "outcome_from dfa q [] = Some (q \<in> set (final_states dfa))"
  by (simp add: outcome_from_def)

lemma outcome_from_Cons:
  "outcome_from dfa q (a # w) =
     (case map_of (transitions dfa) (q, a) of None \<Rightarrow> None | Some n \<Rightarrow> outcome_from dfa n w)"
  by (simp add: outcome_from_def split: option.splits)

lemma told_apart_initial: "told_apart dfa (initial_partition dfa)"
  unfolding told_apart_def
proof (intro ballI impI)
  fix q q'
  assume q: "q \<in> groups_union (initial_partition dfa)"
    and q': "q' \<in> groups_union (initial_partition dfa)"
    and ns: "\<not> same_group (initial_partition dfa) q q'"
  let ?F = "final_states dfa"
  let ?N = "filter (\<lambda>state. state \<notin> set ?F) (states dfa)"
  have mem: "x \<in> set ?F \<or> x \<in> set ?N" if "x \<in> groups_union (initial_partition dfa)" for x
    using that by (auto simp: initial_partition_def Let_def split: if_splits)
  have inF: "same_group (initial_partition dfa) x y" if "x \<in> set ?F" "y \<in> set ?F" for x y
    using that by (auto simp: same_group_def initial_partition_def Let_def)
  have inN: "same_group (initial_partition dfa) x y" if "x \<in> set ?N" "y \<in> set ?N" for x y
  proof -
    from that(1) have "0 < length ?N" by (rule length_pos_if_in_set)
    then have "?N \<noteq> []" by (simp only: length_greater_0_conv not_False_eq_True)
    then have "?N \<in> set (initial_partition dfa)" by (simp add: initial_partition_def Let_def)
    with that show ?thesis unfolding same_group_def list_ex_iff by blast
  qed
  from mem [OF q] mem [OF q'] ns inF inN
  have "(q \<in> set ?F) \<noteq> (q' \<in> set ?F)" by auto
  then have "outcome_from dfa q [] \<noteq> outcome_from dfa q' []" by simp
  then show "distinguishable dfa q q'"
    unfolding distinguishable_def by (intro exI [of _ "[]"]) simp
qed

lemma entries_differ:
  "concat (map f xs) \<noteq> concat (map g xs) \<Longrightarrow> \<exists>a \<in> set xs. f a \<noteq> g a"
  by (induction xs) auto

lemma told_apart_refine:
  assumes closed: "\<forall>item \<in> set (transitions dfa). snd item \<in> groups_union partn"
    and dis: "groups_disjoint partn"
    and told: "told_apart dfa partn"
  shows "told_apart dfa (refine_partition dfa partn)"
  unfolding told_apart_def
proof (intro ballI impI)
  fix q q'
  assume "q \<in> groups_union (refine_partition dfa partn)"
    and "q' \<in> groups_union (refine_partition dfa partn)"
    and ns: "\<not> same_group (refine_partition dfa partn) q q'"
  then have q: "q \<in> groups_union partn" and q': "q' \<in> groups_union partn"
    by (simp_all add: refine_union)
  have target: "n \<in> groups_union partn" if "map_of (transitions dfa) (x, a) = Some n" for x a n
    using closed that by (auto dest!: map_of_SomeD)
  have some: "\<exists>i. find_group partn n 0 = Some i" if "n \<in> groups_union partn" for n
    using that find_group_None [of partn n 0] by (cases "find_group partn n 0") auto
  show "distinguishable dfa q q'"
  proof (cases "same_group partn q q'")
    case False
    with told q q' show ?thesis unfolding told_apart_def by blast
  next
    case True
    then obtain g where g: "g \<in> set partn" "q \<in> set g" "q' \<in> set g"
      unfolding same_group_def list_ex_iff by blast
    from g(2) split_group_props(2) [of dfa partn g]
    obtain s where s: "s \<in> set (split_group dfa partn g)" "q \<in> set s"
      by (auto simp: groups_union_def)
    have sr: "s \<in> set (refine_partition dfa partn)"
      using g(1) s(1) by (auto simp: refine_partition_def)
    have "signature dfa partn q' \<noteq> signature dfa partn q"
    proof
      assume "signature dfa partn q' = signature dfa partn q"
      with split_group_same [OF s g(3)] have "q' \<in> set s" by simp
      with s(2) sr have "same_group (refine_partition dfa partn) q q'"
        unfolding same_group_def list_ex_iff by blast
      with ns show False by simp
    qed
    then obtain a where a: "a \<in> set (alphabet dfa)"
      "signature_entry dfa partn q' a \<noteq> signature_entry dfa partn q a"
      unfolding signature_def by (blast dest: entries_differ)
    show ?thesis
    proof (cases "map_of (transitions dfa) (q, a)")
      case qn: None
      show ?thesis
      proof (cases "map_of (transitions dfa) (q', a)")
        case None
        with qn a(2) show ?thesis by (simp add: signature_entry_def)
      next
        case (Some n')
        with qn have "outcome_from dfa q [a] \<noteq> outcome_from dfa q' [a]"
          by (simp add: outcome_from_Cons)
        with a(1) show ?thesis
          unfolding distinguishable_def by (intro exI [of _ "[a]"]) simp
      qed
    next
      case qs: (Some n)
      show ?thesis
      proof (cases "map_of (transitions dfa) (q', a)")
        case None
        with qs have "outcome_from dfa q [a] \<noteq> outcome_from dfa q' [a]"
          by (simp add: outcome_from_Cons)
        with a(1) show ?thesis
          unfolding distinguishable_def by (intro exI [of _ "[a]"]) simp
      next
        case (Some n')
        from target [OF qs] target [OF Some]
        have n: "n \<in> groups_union partn" and n': "n' \<in> groups_union partn" .
        from some [OF n] some [OF n'] a(2) qs Some
        have "find_group partn n 0 \<noteq> find_group partn n' 0"
          by (auto simp: signature_entry_def)
        with find_group_same [OF dis n n'] have "\<not> same_group partn n n'" by simp
        with told n n' have "distinguishable dfa n n'" unfolding told_apart_def by blast
        then obtain w where w: "set w \<subseteq> set (alphabet dfa)"
          "outcome_from dfa n w \<noteq> outcome_from dfa n' w"
          unfolding distinguishable_def by blast
        with qs Some have "outcome_from dfa q (a # w) \<noteq> outcome_from dfa q' (a # w)"
          by (simp add: outcome_from_Cons)
        with a(1) w(1) show ?thesis
          unfolding distinguishable_def by (intro exI [of _ "a # w"]) simp
      qed
    qed
  qed
qed

lemma told_apart_loop:
  assumes "\<forall>item \<in> set (transitions dfa). snd item \<in> groups_union (initial_partition dfa)"
  shows "told_apart dfa (refine_loop dfa (initial_partition dfa))"
proof -
  let ?U = "groups_union (initial_partition dfa)"
  let ?I = "\<lambda>p. groups_disjoint p \<and> groups_union p = ?U \<and> told_apart dfa p"
  have "?I (refine_loop dfa (initial_partition dfa))"
  proof (rule refine_loop_keeps [where P = ?I])
    fix p assume p: "?I p"
    with assms have "told_apart dfa (refine_partition dfa p)"
      by (intro told_apart_refine) simp_all
    with p show "?I (refine_partition dfa p)"
      by (simp add: refine_disjoint refine_union)
  next
    show "?I (initial_partition dfa)"
      by (simp add: initial_partition_props(2) told_apart_initial)
  qed
  then show ?thesis by simp
qed

lemma run_append:
  "run delta q (u @ v) = (case run delta q u of None \<Rightarrow> None | Some q' \<Rightarrow> run delta q' v)"
  by (induction u arbitrary: q) (auto split: option.splits)

lemma outcome_from_append:
  "run (transitions dfa) q u = Some q' \<Longrightarrow> outcome_from dfa q (u @ v) = outcome_from dfa q' v"
  by (simp add: outcome_from_def run_append)

lemma run_in_states:
  "q \<in> S \<Longrightarrow> \<forall>item \<in> set delta. snd item \<in> S \<Longrightarrow> run delta q w = Some q' \<Longrightarrow> q' \<in> S"
proof (induction w arbitrary: q)
  case Nil
  then show ?case by simp
next
  case (Cons a w)
  from Cons.prems(3) obtain n where n: "map_of delta (q, a) = Some n" "run delta n w = Some q'"
    by (auto split: option.splits)
  from n(1) have "((q, a), n) \<in> set delta" by (rule map_of_SomeD)
  with Cons.prems(2) have "n \<in> S" by force
  from Cons.IH [OF this Cons.prems(2) n(2)] show ?case .
qed

lemma reachable_word:
  "q \<in> reachable D \<Longrightarrow>
     \<exists>w. set w \<subseteq> set (alphabet D) \<and> run (transitions D) (start_state D) w = Some q"
proof (induction rule: reachable.induct)
  case start
  have "set [] \<subseteq> set (alphabet D) \<and> run (transitions D) (start_state D) [] = Some (start_state D)"
    by simp
  then show ?case by blast
next
  case (step q symbol q')
  then obtain w where w: "set w \<subseteq> set (alphabet D)"
    "run (transitions D) (start_state D) w = Some q" by blast
  with step(2,3) have "set (w @ [symbol]) \<subseteq> set (alphabet D) \<and>
      run (transitions D) (start_state D) (w @ [symbol]) = Some q'"
    by (simp add: run_append)
  then show ?case by blast
qed

lemma outcome_pruned:
  assumes "q \<in> reachable D" "set w \<subseteq> set (alphabet D)"
  shows "outcome_from (remove_inaccessible_states D) q w = outcome_from D q w"
proof (cases "run (transitions D) q w")
  case None
  with run_pruned [OF assms] show ?thesis by (simp add: outcome_from_def)
next
  case (Some q')
  with assms have "q' \<in> reachable D" by (blast intro: run_reachable)
  then have "q' \<in> set (final_states (remove_inaccessible_states D))
      \<longleftrightarrow> q' \<in> set (final_states D)"
    by (simp add: remove_inaccessible_states_def Let_def accessible_reachable(1))
  with Some run_pruned [OF assms] show ?thesis by (simp add: outcome_from_def)
qed

lemma outcome_quotient:
  assumes ok: "quotient_ready dfa partn" and M: "create_minimized_dfa dfa partn = Inr M"
    and q: "q \<in> groups_union partn" and w: "set w \<subseteq> set (alphabet dfa)"
  shows "outcome_from M (rep partn q) w = outcome_from dfa q w"
    and "run (transitions M) (rep partn q) w = map_option (rep partn) (run (transitions dfa) q w)"
proof -
  from create_minimized_dfa_fields [OF ok] M
  have T: "map_of (transitions M) = map_of (rev (map (img partn) (transitions dfa)))"
    and f: "set (final_states M) = rep partn ` set (final_states dfa)" by auto
  from quotient_run [OF ok T q w]
  have r: "run (transitions M) (rep partn q) w
      = map_option (rep partn) (run (transitions dfa) q w)"
    and u: "\<forall>q'. run (transitions dfa) q w = Some q' \<longrightarrow> q' \<in> groups_union partn"
    by simp_all
  show "run (transitions M) (rep partn q) w = map_option (rep partn) (run (transitions dfa) q w)"
    by (rule r)
  show "outcome_from M (rep partn q) w = outcome_from dfa q w"
  proof (cases "run (transitions dfa) q w")
    case None
    with r show ?thesis by (simp add: outcome_from_def)
  next
    case (Some q')
    with u have "q' \<in> groups_union partn" by simp
    from quotient_final [OF ok this] Some r f show ?thesis by (simp add: outcome_from_def)
  qed
qed

text \<open>
  An automaton whose states are all reached from its start state and are pairwise told
  apart by some string has no more states than any automaton with the same outcomes.
\<close>

lemma minimal_by_distinguishing:
  fixes M :: "('q, 'a) DFA" and B :: "('b, 'a) DFA"
  assumes reach: "\<forall>r \<in> set (states M). \<exists>w. set w \<subseteq> A \<and>
        run (transitions M) (start_state M) w = Some r"
    and dist: "\<forall>r \<in> set (states M). \<forall>r' \<in> set (states M). r \<noteq> r' \<longrightarrow>
        (\<exists>w. set w \<subseteq> A \<and> outcome_from M r w \<noteq> outcome_from M r' w)"
    and B: "start_state B \<in> set (states B)" "\<forall>item \<in> set (transitions B). snd item \<in> set (states B)"
    and same: "\<forall>w. set w \<subseteq> A \<longrightarrow> outcome B w = outcome M w"
  shows "card (set (states M)) \<le> card (set (states B))"
proof -
  from reach obtain f where f: "\<forall>r \<in> set (states M). set (f r) \<subseteq> A \<and>
      run (transitions M) (start_state M) (f r) = Some r"
    by (meson bchoice)
  have inB: "\<exists>b \<in> set (states B). run (transitions B) (start_state B) (f r) = Some b"
    if r: "r \<in> set (states M)" for r
  proof -
    from f r have fr: "set (f r) \<subseteq> A" "run (transitions M) (start_state M) (f r) = Some r"
      by simp_all
    then have "outcome M (f r) \<noteq> None" by (simp add: outcome_def outcome_from_def)
    with same fr(1) have "outcome B (f r) \<noteq> None" by simp
    then obtain b where b: "run (transitions B) (start_state B) (f r) = Some b"
      by (auto simp: outcome_def outcome_from_def)
    from run_in_states [OF B(1) B(2) b] b show ?thesis by blast
  qed
  let ?phi = "\<lambda>r. the (run (transitions B) (start_state B) (f r))"
  have "inj_on ?phi (set (states M))"
  proof (rule inj_onI)
    fix r r' assume r: "r \<in> set (states M)" and r': "r' \<in> set (states M)"
      and eq: "?phi r = ?phi r'"
    from inB [OF r] obtain b where b: "run (transitions B) (start_state B) (f r) = Some b"
      by blast
    from inB [OF r'] eq b have b': "run (transitions B) (start_state B) (f r') = Some b"
      by auto
    from f r r' have fr: "set (f r) \<subseteq> A" "run (transitions M) (start_state M) (f r) = Some r"
      and fr': "set (f r') \<subseteq> A" "run (transitions M) (start_state M) (f r') = Some r'"
      by simp_all
    have "outcome_from M r v = outcome_from M r' v" if v: "set v \<subseteq> A" for v
    proof -
      have "outcome_from M r v = outcome M (f r @ v)"
        using fr(2) by (simp add: outcome_def outcome_from_append)
      also have "\<dots> = outcome B (f r @ v)" using same fr(1) v by simp
      also have "\<dots> = outcome_from B b v"
        using b by (simp add: outcome_def outcome_from_append)
      also have "\<dots> = outcome B (f r' @ v)"
        using b' by (simp add: outcome_def outcome_from_append)
      also have "\<dots> = outcome M (f r' @ v)" using same fr'(1) v by simp
      also have "\<dots> = outcome_from M r' v"
        using fr'(2) by (simp add: outcome_def outcome_from_append)
      finally show ?thesis .
    qed
    with dist r r' show "r = r'" by blast
  qed
  moreover have "?phi ` set (states M) \<subseteq> set (states B)"
    using inB by force
  ultimately show ?thesis
    by (meson List.finite_set card_inj_on_le)
qed

lemma short_list_same: "length xs \<le> 1 \<Longrightarrow> r \<in> set xs \<Longrightarrow> r' \<in> set xs \<Longrightarrow> r = r'"
  by (cases xs) auto

lemma minimize_props:
  assumes keys: "distinct (map fst (transitions D))"
  shows "\<exists>M. minimize D = Inr M \<and> distinct (states M) \<and> alphabet M = alphabet D \<and>
           (\<forall>w. set w \<subseteq> set (alphabet D) \<longrightarrow> outcome M w = outcome D w) \<and>
           (\<forall>r \<in> set (states M). \<exists>w. set w \<subseteq> set (alphabet D) \<and>
               run (transitions M) (start_state M) w = Some r) \<and>
           (\<forall>r \<in> set (states M). \<forall>r' \<in> set (states M). r \<noteq> r' \<longrightarrow>
               (\<exists>w. set w \<subseteq> set (alphabet D) \<and> outcome_from M r w \<noteq> outcome_from M r' w))"
proof (cases D rule: minimize_cases)
  case small
  let ?P = "remove_inaccessible_states D"
  have s: "start_state ?P = start_state D"
    by (simp add: remove_inaccessible_states_def Let_def)
  have 1: "distinct (states ?P)"
    by (simp add: remove_inaccessible_states_def Let_def accessible_reachable(2))
  have 2: "outcome ?P w = outcome D w" if "set w \<subseteq> set (alphabet D)" for w
    using outcome_pruned [OF reachable.start that] by (simp add: outcome_def s)
  have 3: "\<exists>w. set w \<subseteq> set (alphabet D) \<and> run (transitions ?P) (start_state ?P) w = Some r"
    if "r \<in> set (states ?P)" for r
  proof -
    from that have "r \<in> reachable D" by (simp add: pruned_fields(1))
    from reachable_word [OF this] obtain w where w: "set w \<subseteq> set (alphabet D)"
      "run (transitions D) (start_state D) w = Some r" by blast
    with run_pruned [OF reachable.start w(1)] s show ?thesis by auto
  qed
  have 4: "r = r'" if "r \<in> set (states ?P)" "r' \<in> set (states ?P)" for r r'
    using small(1) that by (rule short_list_same)
  from small(2) 1 2 3 4 pruned_fields(4) [of D] show ?thesis by blast
next
  case quotient
  let ?P = "remove_inaccessible_states D"
  let ?p = "refine_loop ?P (initial_partition ?P)"
  have ok: "quotient_ready ?P ?p" using keys by (rule minimize_ready)
  have s: "start_state ?P = start_state D"
    by (simp add: remove_inaccessible_states_def Let_def)
  have al: "alphabet ?P = alphabet D" by (rule pruned_fields(4))
  have u0: "groups_union (initial_partition ?P) = reachable D"
    using pruned_fields(1,2) [of D] by (auto simp: initial_partition_props(3))
  then have u: "groups_union ?p = reachable D" by (simp add: refine_loop_union)
  have told: "told_apart ?P ?p"
    by (rule told_apart_loop) (use pruned_fields(5) [of D] u0 in simp)
  from create_minimized_dfa_fields [OF ok] obtain M where M: "create_minimized_dfa ?P ?p = Inr M"
    and st: "set (states M) = rep ?p ` set (states ?P)" and d: "distinct (states M)"
    and a: "alphabet M = alphabet ?P" and ss: "start_state M = rep ?p (start_state ?P)"
    by blast
  have st': "set (states M) = rep ?p ` reachable D" using st by (simp add: pruned_fields(1))
  have start: "start_state D \<in> groups_union ?p" using u reachable.start by blast
  have 2: "outcome M w = outcome D w" if w: "set w \<subseteq> set (alphabet D)" for w
  proof -
    have "outcome M w = outcome_from ?P (start_state D) w"
      using outcome_quotient(1) [OF ok M start] w by (simp add: outcome_def ss s al)
    also have "\<dots> = outcome D w"
      using outcome_pruned [OF reachable.start w] by (simp add: outcome_def)
    finally show ?thesis .
  qed
  have 3: "\<exists>w. set w \<subseteq> set (alphabet D) \<and> run (transitions M) (start_state M) w = Some r"
    if "r \<in> set (states M)" for r
  proof -
    from that st' obtain q where q: "q \<in> reachable D" "r = rep ?p q" by blast
    from reachable_word [OF q(1)] obtain w where w: "set w \<subseteq> set (alphabet D)"
      "run (transitions D) (start_state D) w = Some q" by blast
    from run_pruned [OF reachable.start w(1)] w(2)
    have "run (transitions ?P) (start_state D) w = Some q" by simp
    with outcome_quotient(2) [OF ok M start, of w] w(1) al
    have "run (transitions M) (rep ?p (start_state D)) w = Some (rep ?p q)" by simp
    with w(1) q(2) ss s show ?thesis by auto
  qed
  have 4: "\<exists>w. set w \<subseteq> set (alphabet D) \<and> outcome_from M r w \<noteq> outcome_from M r' w"
    if "r \<in> set (states M)" "r' \<in> set (states M)" "r \<noteq> r'" for r r'
  proof -
    from that st' obtain q q' where q: "q \<in> reachable D" "r = rep ?p q"
      and q': "q' \<in> reachable D" "r' = rep ?p q'" by blast
    from q(1) q'(1) u have in_u: "q \<in> groups_union ?p" "q' \<in> groups_union ?p" by simp_all
    from that(3) q(2) q'(2) rep_same [OF ok in_u] have "\<not> same_group ?p q q'" by simp
    with told in_u have "distinguishable ?P q q'" unfolding told_apart_def by blast
    then obtain w where w: "set w \<subseteq> set (alphabet D)"
      "outcome_from ?P q w \<noteq> outcome_from ?P q' w"
      unfolding distinguishable_def al by blast
    from w(1) al have w': "set w \<subseteq> set (alphabet ?P)" by simp
    from outcome_quotient(1) [OF ok M in_u(1) w'] outcome_quotient(1) [OF ok M in_u(2) w'] w(2)
    have "outcome_from M r w \<noteq> outcome_from M r' w" by (simp add: q(2) q'(2))
    with w(1) show ?thesis by blast
  qed
  from quotient(2) M d a al 2 3 4 show ?thesis by auto
qed

text \<open>
  q0 is final and has an a-transition to a state without transitions and a b-transition
  to a state that loops on a: the language is the empty string alone, which the
  automaton with the single state s and no transition recognizes too.
\<close>

definition dead_dfa :: "(string, string) DFA" where
  "dead_dfa =
     \<lparr>states = [''q0'', ''q1'', ''q2''], alphabet = [''a'', ''b''],
      transitions = [((''q0'', ''a''), ''q1''), ((''q0'', ''b''), ''q2''),
                     ((''q2'', ''a''), ''q2'')],
      start_state = ''q0'', final_states = [''q0'']\<rparr>"

definition one_state_dfa :: "(string, string) DFA" where
  "one_state_dfa =
     \<lparr>states = [''s''], alphabet = [''a'', ''b''], transitions = [],
      start_state = ''s'', final_states = [''s'']\<rparr>"

lemma dead_run_q1: "run (transitions dead_dfa) ''q1'' w \<noteq> Some ''q0''"
  by (cases w) (simp_all add: dead_dfa_def)

lemma dead_run_q2: "run (transitions dead_dfa) ''q2'' w \<noteq> Some ''q0''"
  by (induction w) (simp_all add: dead_dfa_def)

lemma dead_accepts: "accepts dead_dfa w \<longleftrightarrow> w = []"
proof (cases w)
  case Nil
  then show ?thesis by (simp add: accepts_def dead_dfa_def)
next
  case (Cons a v)
  have f: "final_states dead_dfa = [''q0'']" "start_state dead_dfa = ''q0''"
    by (simp_all add: dead_dfa_def)
  consider "a = ''a''" | "a = ''b''" | "a \<noteq> ''a''" "a \<noteq> ''b''" by blast
  then have "\<not> accepts dead_dfa (a # v)"
  proof cases
    case 1
    then have "run (transitions dead_dfa) ''q0'' (a # v) = run (transitions dead_dfa) ''q1'' v"
      by (simp add: dead_dfa_def)
    with dead_run_q1 [of v] show ?thesis
      by (auto simp: accepts_def f split: option.splits)
  next
    case 2
    then have "run (transitions dead_dfa) ''q0'' (a # v) = run (transitions dead_dfa) ''q2'' v"
      by (simp add: dead_dfa_def)
    with dead_run_q2 [of v] show ?thesis
      by (auto simp: accepts_def f split: option.splits)
  next
    case 3
    then have "run (transitions dead_dfa) ''q0'' (a # v) = None"
      by (simp add: dead_dfa_def)
    then show ?thesis by (simp add: accepts_def f)
  qed
  with Cons show ?thesis by simp
qed

lemma one_state_accepts: "accepts one_state_dfa w \<longleftrightarrow> w = []"
  by (cases w) (simp_all add: accepts_def one_state_dfa_def)

text \<open>
  Counterexample to claim C5: \<open>minimize\<close> keeps the three states of this automaton (the
  two states from which nothing is accepted differ in their signatures, one lacks the
  a-transition the other has), while an automaton with one state accepts exactly the
  same strings.
\<close>

theorem C5_dead_states_kept:
  "minimize dead_dfa = Inr dead_dfa
   \<and> length (states dead_dfa) = 3
   \<and> length (states one_state_dfa) = 1
   \<and> (\<forall>w. accepts one_state_dfa w = accepts dead_dfa w)"
proof (intro conjI allI)
  show "minimize dead_dfa = Inr dead_dfa" by code_simp
  show "length (states dead_dfa) = 3" by (simp add: dead_dfa_def)
  show "length (states one_state_dfa) = 1" by (simp add: one_state_dfa_def)
  show "accepts one_state_dfa w = accepts dead_dfa w" for w
    by (simp add: dead_accepts one_state_accepts)
qed

text \<open>
  Claim C5 as amended: for a DFA \<open>D\<close> whose transition dict has every key once,
  \<open>minimize\<close> returns an automaton in which any two different states are told apart by
  a string over the alphabet (read from the two states, it ends in a final state from
  one only, or meets a missing transition from one only), and which has no more states
  than any automaton \<open>B\<close> (its start state and the targets of its transitions among
  its states) on which every string over the alphabet has the outcome it has on \<open>D\<close>:
  accepted, rejected at its end, or stopped by a missing transition.
\<close>

theorem C5_minimize_minimal:
  fixes D :: "(string, 'a) DFA" and B :: "('b, 'a) DFA"
  assumes "distinct (map fst (transitions D))"
    and "start_state B \<in> set (states B)"
    and "\<forall>item \<in> set (transitions B). snd item \<in> set (states B)"
    and "\<forall>w. set w \<subseteq> set (alphabet D) \<longrightarrow> outcome B w = outcome D w"
  shows "\<exists>M. minimize D = Inr M
           \<and> length (states M) \<le> card (set (states B))
           \<and> (\<forall>r \<in> set (states M). \<forall>r' \<in> set (states M). r \<noteq> r' \<longrightarrow> distinguishable M r r')"
proof -
  from minimize_props [OF assms(1)] obtain M where M: "minimize D = Inr M"
    and d: "distinct (states M)" and a: "alphabet M = alphabet D"
    and same: "\<forall>w. set w \<subseteq> set (alphabet D) \<longrightarrow> outcome M w = outcome D w"
    and reach: "\<forall>r \<in> set (states M). \<exists>w. set w \<subseteq> set (alphabet D) \<and>
               run (transitions M) (start_state M) w = Some r"
    and dist: "\<forall>r \<in> set (states M). \<forall>r' \<in> set (states M). r \<noteq> r' \<longrightarrow>
               (\<exists>w. set w \<subseteq> set (alphabet D) \<and> outcome_from M r w \<noteq> outcome_from M r' w)"
    by blast
  have "\<forall>w. set w \<subseteq> set (alphabet D) \<longrightarrow> outcome B w = outcome M w"
    using assms(4) same by simp
  with reach dist assms(2,3) have "card (set (states M)) \<le> card (set (states B))"
    by (rule minimal_by_distinguishing)
  with d have "length (states M) \<le> card (set (states B))"
    by (simp add: distinct_card)
  moreover have "\<forall>r \<in> set (states M). \<forall>r' \<in> set (states M). r \<noteq> r' \<longrightarrow> distinguishable M r r'"
    using dist unfolding distinguishable_def a by simp
  ultimately show ?thesis using M by blast
qed

theorem C5_minimize_minimal_witness:
  "distinct (map fst (transitions dfa01))
   \<and> start_state dfa01 \<in> set (states dfa01)
   \<and> (\<exists>M. minimize dfa01 = Inr M \<and> length (states M) \<le> card (set (states dfa01)))"
proof -
  have a: "distinct (map fst (transitions dfa01))" by (simp add: dfa01_def)
  have b: "start_state dfa01 \<in> set (states dfa01)" by (simp add: dfa01_def)
  have c: "\<forall>item \<in> set (transitions dfa01). snd item \<in> set (states dfa01)"
    by (simp add: dfa01_def)
  have d: "\<forall>w. set w \<subseteq> set (alphabet dfa01) \<longrightarrow> outcome dfa01 w = outcome dfa01 w" by simp
  from C5_minimize_minimal [OF a b c d] a b show ?thesis by blast
qed

section \<open>Claims about cfg\_to\_cnf.py\<close>

text \<open>
  The shape the tests of the repository check on a converted grammar: a body of length 1
  is a terminal, a body of length 2 consists of two variables, and nothing else occurs
  but an empty body of the start symbol.
\<close>

definition cnf_body :: "CFG \<Rightarrow> string \<Rightarrow> bool" where
  "cnf_body g prd \<longleftrightarrow>
     (length prd = 1 \<and> prd \<in> set (terminals g)) \<or>
     (length prd = 2 \<and> [prd ! 0] \<in> set (variables g) \<and> [prd ! 1] \<in> set (variables g))"

definition in_cnf :: "CFG \<Rightarrow> bool" where
  "in_cnf g \<longleftrightarrow>
     list_all (\<lambda>item. list_all (\<lambda>prd. cnf_body g prd \<or> (prd = '''' \<and> fst item = start_symbol g))
                 (snd item)) (productions g)"

definition epsilon_only_on_start :: "CFG \<Rightarrow> bool" where
  "epsilon_only_on_start g \<longleftrightarrow>
     list_all (\<lambda>item. if fst item = start_symbol g then True else '''' \<notin> set (snd item))
       (productions g)"

text \<open>The grammar of \<open>test_simple_cfg_conversion\<close>: S \<rightarrow> aA | B, A \<rightarrow> SB | aAa, B \<rightarrow> b | \<epsilon>.\<close>

definition test_grammar :: CFG where
  "test_grammar =
     \<lparr>variables = [''S'', ''A'', ''B''], terminals = [''a'', ''b''],
      productions = [(''S'', [''aA'', ''B'']), (''A'', [''SB'', ''aAa'']), (''B'', [''b'', ''''])],
      start_symbol = ''S''\<rparr>"

text \<open>The grammar of \<open>test_epsilon_elimination\<close>: S \<rightarrow> AB, A \<rightarrow> a | \<epsilon>, B \<rightarrow> b.\<close>

definition epsilon_grammar :: CFG where
  "epsilon_grammar =
     \<lparr>variables = [''S'', ''A'', ''B''], terminals = [''a'', ''b''],
      productions = [(''S'', [''AB'']), (''A'', [''a'', '''']), (''B'', [''b''])],
      start_symbol = ''S''\<rparr>"

text \<open>The grammar of \<open>test_long_production_breakdown\<close>: S \<rightarrow> abcd.\<close>

definition abcd_grammar :: CFG where
  "abcd_grammar =
     \<lparr>variables = [''S''], terminals = [''a'', ''b'', ''c'', ''d''],
      productions = [(''S'', [''abcd''])], start_symbol = ''S''\<rparr>"

text \<open>S \<rightarrow> a | \<epsilon>: the start symbol is nullable.\<close>

definition nullable_start_grammar :: CFG where
  "nullable_start_grammar =
     \<lparr>variables = [''S''], terminals = [''a''],
      productions = [(''S'', [''a'', ''''])], start_symbol = ''S''\<rparr>"

text \<open>A \<rightarrow> a with the start symbol S, which is not a variable of the grammar.\<close>

definition bad_start_grammar :: CFG where
  "bad_start_grammar =
     \<lparr>variables = [''A''], terminals = [''a''],
      productions = [(''A'', [''a''])], start_symbol = ''S''\<rparr>"

text \<open>
  Claim C1 (every body of the converted grammar is one terminal or two variables, and an
  empty body occurs at most on a synthesized start variable) fails on the grammar of the
  repository's own test: the conversion returns the grammar below, where S keeps the
  body aA (a terminal in a body of length 2) and an empty body, B keeps its empty body,
  and XX2, aX3, XX4, X4X5, X5X6 have length 3 or 4.
\<close>

theorem C1_test_grammar_not_in_cnf:
  "convert_to_cnf (CNFConverter_init test_grammar) =
     Inr (\<lparr>variables = [''S'', ''A'', ''B'', ''X0'', ''X1'', ''X2'', ''X3'', ''X4'', ''X5'', ''X6''],
           terminals = [''a'', ''b''],
           productions =
             [(''S'', [''aA'', ''b'', '''', ''XX2'']),
              (''A'', [''SB'', ''aX3'', ''XX4'']),
              (''B'', [''b'', '''']),
              (''X0'', []),
              (''X1'', [''a'']),
              (''X2'', [''1A'']),
              (''X3'', [''Aa'']),
              (''X4'', [''X4X5'']),
              (''X5'', [''X5X6'']),
              (''X6'', [''X1''])],
           start_symbol = ''S''\<rparr>,
          \<lparr>cfg = \<lparr>variables = [''S'', ''A'', ''B'', ''X0''], terminals = [''a'', ''b''],
                   productions = [(''S'', [''aA'', ''B'']), (''A'', [''SB'', ''aAa'']),
                                  (''B'', [''b'', ''''])],
                   start_symbol = ''S''\<rparr>,
           new_var_counter = 7, terminal_to_var = [(''a'', ''X1'')]\<rparr>)
   \<and> \<not> in_cnf
        \<lparr>variables = [''S'', ''A'', ''B'', ''X0'', ''X1'', ''X2'', ''X3'', ''X4'', ''X5'', ''X6''],
         terminals = [''a'', ''b''],
         productions =
           [(''S'', [''aA'', ''b'', '''', ''XX2'']),
            (''A'', [''SB'', ''aX3'', ''XX4'']),
            (''B'', [''b'', '''']),
            (''X0'', []),
            (''X1'', [''a'']),
            (''X2'', [''1A'']),
            (''X3'', [''Aa'']),
            (''X4'', [''X4X5'']),
            (''X5'', [''X5X6'']),
            (''X6'', [''X1''])],
         start_symbol = ''S''\<rparr>"
proof
  show "convert_to_cnf (CNFConverter_init test_grammar) =
     Inr (\<lparr>variables = [''S'', ''A'', ''B'', ''X0'', ''X1'', ''X2'', ''X3'', ''X4'', ''X5'', ''X6''],
           terminals = [''a'', ''b''],
           productions =
             [(''S'', [''aA'', ''b'', '''', ''XX2'']),
              (''A'', [''SB'', ''aX3'', ''XX4'']),
              (''B'', [''b'', '''']),
              (''X0'', []),
              (''X1'', [''a'']),
              (''X2'', [''1A'']),
              (''X3'', [''Aa'']),
              (''X4'', [''X4X5'']),
              (''X5'', [''X5X6'']),
              (''X6'', [''X1''])],
           start_symbol = ''S''\<rparr>,
          \<lparr>cfg = \<lparr>variables = [''S'', ''A'', ''B'', ''X0''], terminals = [''a'', ''b''],
                   productions = [(''S'', [''aA'', ''B'']), (''A'', [''SB'', ''aAa'']),
                                  (''B'', [''b'', ''''])],
                   start_symbol = ''S''\<rparr>,
           new_var_counter = 7, terminal_to_var = [(''a'', ''X1'')]\<rparr>)"
    by code_simp
next
  show "\<not> in_cnf
        \<lparr>variables = [''S'', ''A'', ''B'', ''X0'', ''X1'', ''X2'', ''X3'', ''X4'', ''X5'', ''X6''],
         terminals = [''a'', ''b''],
         productions =
           [(''S'', [''aA'', ''b'', '''', ''XX2'']),
            (''A'', [''SB'', ''aX3'', ''XX4'']),
            (''B'', [''b'', '''']),
            (''X0'', []),
            (''X1'', [''a'']),
            (''X2'', [''1A'']),
            (''X3'', [''Aa'']),
            (''X4'', [''X4X5'']),
            (''X5'', [''X5X6'']),
            (''X6'', [''X1''])],
         start_symbol = ''S''\<rparr>"
    by (simp add: in_cnf_def cnf_body_def)
qed

text \<open>
  Claim C3 (unit elimination runs on the epsilon-eliminated grammar, so after the first
  two stages an empty body occurs at most on the synthesized start symbol) fails:
  \<open>eliminate_unit_productions\<close> reads \<open>self.cfg\<close>, the grammar the converter was built
  with, and the result of the first stage is dropped. On S \<rightarrow> AB, A \<rightarrow> a | \<epsilon>, B \<rightarrow> b the
  grammar after the two stages is the input itself, with the empty body of A, where
  the first stage alone had returned S \<rightarrow> AB | B, A \<rightarrow> a, B \<rightarrow> b.
\<close>

theorem C3_unit_elimination_reads_original:
  "eliminate_epsilon_productions (CNFConverter_init epsilon_grammar) =
     Inr (\<lparr>variables = [''S'', ''A'', ''B''], terminals = [''a'', ''b''],
           productions = [(''S'', [''AB'', ''B'']), (''A'', [''a'']), (''B'', [''b''])],
           start_symbol = ''S''\<rparr>, CNFConverter_init epsilon_grammar)
   \<and> first_two_stages (CNFConverter_init epsilon_grammar) =
     Inr (\<lparr>variables = [''S'', ''A'', ''B''], terminals = [''a'', ''b''],
           productions = [(''S'', [''AB'']), (''A'', [''a'', '''']), (''B'', [''b''])],
           start_symbol = ''S''\<rparr>, CNFConverter_init epsilon_grammar)
   \<and> \<not> epsilon_only_on_start
        \<lparr>variables = [''S'', ''A'', ''B''], terminals = [''a'', ''b''],
         productions = [(''S'', [''AB'']), (''A'', [''a'', '''']), (''B'', [''b''])],
         start_symbol = ''S''\<rparr>"
proof (intro conjI)
  show "eliminate_epsilon_productions (CNFConverter_init epsilon_grammar) =
     Inr (\<lparr>variables = [''S'', ''A'', ''B''], terminals = [''a'', ''b''],
           productions = [(''S'', [''AB'', ''B'']), (''A'', [''a'']), (''B'', [''b''])],
           start_symbol = ''S''\<rparr>, CNFConverter_init epsilon_grammar)"
    by code_simp
  show "first_two_stages (CNFConverter_init epsilon_grammar) =
     Inr (\<lparr>variables = [''S'', ''A'', ''B''], terminals = [''a'', ''b''],
           productions = [(''S'', [''AB'']), (''A'', [''a'', '''']), (''B'', [''b''])],
           start_symbol = ''S''\<rparr>, CNFConverter_init epsilon_grammar)"
    by code_simp
  show "\<not> epsilon_only_on_start
        \<lparr>variables = [''S'', ''A'', ''B''], terminals = [''a'', ''b''],
         productions = [(''S'', [''AB'']), (''A'', [''a'', '''']), (''B'', [''b''])],
         start_symbol = ''S''\<rparr>"
    by (simp add: epsilon_only_on_start_def)
qed

text \<open>
  Claim C4 (the pipelines never change the caller's object) fails for the grammar: when
  the start symbol is nullable, \<open>eliminate_epsilon_productions\<close> adds the new start
  variable to \<open>self.cfg.variables\<close>, the very set the caller passed in. After converting
  S \<rightarrow> a | \<epsilon> the caller's grammar has the variables S and X0.
\<close>

theorem C4_caller_grammar_mutated:
  "convert_to_cnf (CNFConverter_init nullable_start_grammar) =
     Inr (\<lparr>variables = [''S'', ''X0''], terminals = [''a''],
           productions = [(''S'', [''a'', '''']), (''X0'', [])],
           start_symbol = ''S''\<rparr>,
          \<lparr>cfg = \<lparr>variables = [''S'', ''X0''], terminals = [''a''],
                   productions = [(''S'', [''a'', ''''])], start_symbol = ''S''\<rparr>,
           new_var_counter = 1, terminal_to_var = []\<rparr>)
   \<and> variables (cfg (CNFConverter_init nullable_start_grammar)) = [''S'']"
proof
  show "convert_to_cnf (CNFConverter_init nullable_start_grammar) =
     Inr (\<lparr>variables = [''S'', ''X0''], terminals = [''a''],
           productions = [(''S'', [''a'', '''']), (''X0'', [])],
           start_symbol = ''S''\<rparr>,
          \<lparr>cfg = \<lparr>variables = [''S'', ''X0''], terminals = [''a''],
                   productions = [(''S'', [''a'', ''''])], start_symbol = ''S''\<rparr>,
           new_var_counter = 1, terminal_to_var = []\<rparr>)"
    by code_simp
next
  show "variables (cfg (CNFConverter_init nullable_start_grammar)) = [''S'']"
    by (simp add: CNFConverter_init_def nullable_start_grammar_def)
qed

text \<open>
  Claim C8 (converting S \<rightarrow> abcd introduces exactly two chain variables besides one
  variable per terminal) fails: the body abcd stays in the grammar next to its copy
  X0X1X2X3, which is a string of eight characters. The chain loop runs over characters,
  so it makes two variables for abcd (X4, X5) and six for X0X1X2X3 (X6 to X11), and the
  bodies aX4, XX6, X4X5 and the others are longer than 2.
\<close>

theorem C8_abcd_chain_variables:
  "convert_to_cnf (CNFConverter_init abcd_grammar) =
     Inr (\<lparr>variables = [''S'', ''X0'', ''X1'', ''X2'', ''X3'', ''X4'', ''X5'', ''X6'', ''X7'',
                        ''X8'', ''X9'', ''X10'', ''X11''],
           terminals = [''a'', ''b'', ''c'', ''d''],
           productions =
             [(''S'', [''aX4'', ''XX6'']),
              (''X0'', [''a'']), (''X1'', [''b'']), (''X2'', [''c'']), (''X3'', [''d'']),
              (''X4'', [''X4X5'']), (''X5'', [''cd'']),
              (''X6'', [''X6X7'']), (''X7'', [''X7X8'']), (''X8'', [''X8X9'']),
              (''X9'', [''X9X10'']), (''X10'', [''X10X11'']), (''X11'', [''X3''])],
           start_symbol = ''S''\<rparr>,
          \<lparr>cfg = abcd_grammar, new_var_counter = 12,
           terminal_to_var = [(''a'', ''X0''), (''b'', ''X1''), (''c'', ''X2''), (''d'', ''X3'')]\<rparr>)"
  by code_simp

text \<open>
  Counterexample to claim C9: the start symbol S of this grammar is not one of its
  variables, and the conversion returns a grammar all the same.
\<close>

theorem C9_bad_start_accepted:
  "start_symbol bad_start_grammar \<notin> set (variables bad_start_grammar)
   \<and> convert_to_cnf (CNFConverter_init bad_start_grammar) =
     Inr (\<lparr>variables = [''A''], terminals = [''a''],
           productions = [(''A'', [''a''])], start_symbol = ''S''\<rparr>,
          CNFConverter_init bad_start_grammar)"
proof
  show "start_symbol bad_start_grammar \<notin> set (variables bad_start_grammar)"
    by (simp add: bad_start_grammar_def)
next
  show "convert_to_cnf (CNFConverter_init bad_start_grammar) =
     Inr (\<lparr>variables = [''A''], terminals = [''a''],
           productions = [(''A'', [''a''])], start_symbol = ''S''\<rparr>,
          CNFConverter_init bad_start_grammar)"
    by code_simp
qed

subsection \<open>Epsilon elimination on a grammar without empty bodies\<close>

text \<open>
  The rules of a grammar are the pairs of a key of \<open>productions\<close> and one of its bodies.
  A derivation step replaces an occurrence of a variable by one of its bodies; the
  language is the set of strings of terminals derived from the start symbol.
\<close>

definition rules_of :: "(string \<times> string list) list \<Rightarrow> (string \<times> string) set" where
  "rules_of d = {(var, body). \<exists>prods. (var, prods) \<in> set d \<and> body \<in> set prods}"

inductive derives :: "(string \<times> string) set \<Rightarrow> string \<Rightarrow> string \<Rightarrow> bool"
  for R :: "(string \<times> string) set" where
  start: "derives R u u"
| step: "derives R u (x @ var @ y) \<Longrightarrow> (var, body) \<in> R \<Longrightarrow> derives R u (x @ body @ y)"

definition language :: "CFG \<Rightarrow> string set" where
  "language g =
     {w. derives (rules_of (productions g)) (start_symbol g) w \<and>
         list_all (\<lambda>c. [c] \<in> set (terminals g)) w}"

lemma rules_of_simps [simp]:
  "rules_of [] = {}"
  "rules_of ((var, prods) # d) = {var} \<times> set prods \<union> rules_of d"
  by (auto simp: rules_of_def)

lemma rules_of_empty_bodies: "rules_of (map (\<lambda>var. (var, [])) vars) = {}"
  by (auto simp: rules_of_def)

lemma rules_of_update:
  "map_of d k = Some vs \<Longrightarrow> rules_of (AList.update k (vs @ [v]) d) = insert (k, v) (rules_of d)"
  by (induction d) (auto split: if_splits)

lemma append_new_rules:
  assumes "k \<in> fst ` set d"
  shows "\<exists>d'. append_new k v d = Inr d' \<and> rules_of d' = insert (k, v) (rules_of d) \<and>
           fst ` set d' = fst ` set d"
proof -
  from assms obtain vs where vs: "map_of d k = Some vs"
    by (cases "map_of d k") (auto simp: map_of_eq_None_iff)
  show ?thesis
  proof (cases "v \<in> set vs")
    case True
    from vs have "(k, vs) \<in> set d" by (rule map_of_SomeD)
    with True have "(k, v) \<in> rules_of d" by (auto simp: rules_of_def)
    with vs True show ?thesis by (auto simp: append_new_def getitem_def)
  next
    case False
    with vs assms show ?thesis
      by (auto simp: append_new_def getitem_def setitem_def rules_of_update dom_update)
  qed
qed

lemma nullable_pass_none:
  "\<forall>item \<in> set items. '''' \<notin> set (snd item) \<Longrightarrow> nullable_pass items [] False = ([], False)"
proof (induction items)
  case Nil
  then show ?case by simp
next
  case (Cons item items)
  obtain var prods where item: "item = (var, prods)" by (cases item)
  with Cons.prems have "'''' \<notin> set prods" by simp
  then have "\<not> list_ex (\<lambda>prd. list_all (\<lambda>symbol. [symbol] \<in> set []) prd) prods"
    by (induction prods) (auto simp: list_all_iff)
  with Cons item \<open>'''' \<notin> set prods\<close> show ?case by simp
qed

lemma compute_nullable_none:
  "\<forall>item \<in> set items. '''' \<notin> set (snd item) \<Longrightarrow> compute_nullable items [] = []"
  by (simp add: compute_nullable.simps [of items "[]"] nullable_pass_none)

lemma nullable_indices_none: "nullable_indices prd [] = []"
  by (simp add: nullable_indices_def)

lemma omit_nothing: "omit_symbols prd (omit_indices i []) = prd"
  by (simp add: omit_symbols_def omit_indices_def map_nth)

lemma expand_production_rules:
  assumes "var \<in> fst ` set d" "prd \<noteq> ''''"
  shows "\<exists>d'. expand_production var [] prd d = Inr d' \<and>
           rules_of d' = insert (var, prd) (rules_of d) \<and> fst ` set d' = fst ` set d"
proof -
  have "expand_production var [] prd d = append_new var prd d"
    using assms(2)
    by (simp add: expand_production_def add_combination_def omit_nothing nullable_indices_none
        Let_def split: sum.splits)
  with append_new_rules [OF assms(1), of prd] show ?thesis by simp
qed

lemma expand_variable_rules:
  "var \<in> fst ` set d \<Longrightarrow> '''' \<notin> set prods \<Longrightarrow>
     \<exists>d'. for_each (expand_production var []) prods d = Inr d' \<and>
          rules_of d' = {var} \<times> set prods \<union> rules_of d \<and> fst ` set d' = fst ` set d"
proof (induction prods arbitrary: d)
  case Nil
  then show ?case by simp
next
  case (Cons prd prods)
  from Cons.prems have "prd \<noteq> ''''" "'''' \<notin> set prods" by auto
  from expand_production_rules [OF Cons.prems(1) this(1)] obtain d1
    where d1: "expand_production var [] prd d = Inr d1"
      "rules_of d1 = insert (var, prd) (rules_of d)" "fst ` set d1 = fst ` set d" by blast
  from Cons.prems(1) d1(3) have "var \<in> fst ` set d1" by simp
  from Cons.IH [OF this \<open>'''' \<notin> set prods\<close>] obtain d' where
    "for_each (expand_production var []) prods d1 = Inr d'"
    "rules_of d' = {var} \<times> set prods \<union> rules_of d1" "fst ` set d' = fst ` set d1" by blast
  with d1 show ?case by auto
qed

lemma expand_all_rules:
  "fst ` set items \<subseteq> fst ` set d \<Longrightarrow> \<forall>item \<in> set items. '''' \<notin> set (snd item) \<Longrightarrow>
     \<exists>d'. for_each (expand_variable []) items d = Inr d' \<and>
          rules_of d' = rules_of items \<union> rules_of d \<and> fst ` set d' = fst ` set d"
proof (induction items arbitrary: d)
  case Nil
  then show ?case by simp
next
  case (Cons item items)
  obtain var prods where item: "item = (var, prods)" by (cases item)
  with Cons.prems have var: "var \<in> fst ` set d" and ne: "'''' \<notin> set prods"
    and rest: "fst ` set items \<subseteq> fst ` set d" "\<forall>item \<in> set items. '''' \<notin> set (snd item)"
    by auto
  from expand_variable_rules [OF var ne] obtain d1
    where d1: "for_each (expand_production var []) prods d = Inr d1"
      "rules_of d1 = {var} \<times> set prods \<union> rules_of d" "fst ` set d1 = fst ` set d" by blast
  from rest(1) d1(3) have "fst ` set items \<subseteq> fst ` set d1" by simp
  from Cons.IH [OF this rest(2)] obtain d' where d': "for_each (expand_variable []) items d1 = Inr d'"
    "rules_of d' = rules_of items \<union> rules_of d1" "fst ` set d' = fst ` set d1" by blast
  have "expand_variable [] item d = Inr d1"
    using d1(1) item by (simp add: expand_variable_def)
  then have "for_each (expand_variable []) (item # items) d = Inr d'"
    using d'(1) by simp
  moreover have "rules_of d' = rules_of (item # items) \<union> rules_of d"
    using d'(2) d1(2) item by auto
  moreover have "fst ` set d' = fst ` set d" using d'(3) d1(3) by simp
  ultimately show ?case by blast
qed

text \<open>
  Claim C7: on a grammar without empty bodies, whose production keys are variables,
  \<open>eliminate_epsilon_productions\<close> returns a grammar that generates the same language
  and has no empty body; the start symbol and the variables are those of the input, and
  the converter is unchanged (no variable was generated).
\<close>

theorem C7_epsilon_free_unchanged:
  assumes "\<forall>item \<in> set (productions (cfg self)). '''' \<notin> set (snd item)"
    and "fst ` set (productions (cfg self)) \<subseteq> set (variables (cfg self))"
  shows "\<exists>g. eliminate_epsilon_productions self = Inr (g, self)
           \<and> language g = language (cfg self)
           \<and> (\<forall>item \<in> set (productions g). '''' \<notin> set (snd item))
           \<and> start_symbol g = start_symbol (cfg self)
           \<and> variables g = variables (cfg self)"
proof -
  let ?d0 = "map (\<lambda>var. (var, [])) (variables (cfg self))"
  have n: "compute_nullable (productions (cfg self)) [] = []"
    using assms(1) by (rule compute_nullable_none)
  have "fst ` set (productions (cfg self)) \<subseteq> fst ` set ?d0"
    using assms(2) by force
  from expand_all_rules [OF this assms(1)] obtain d' where
    d': "for_each (expand_variable []) (productions (cfg self)) ?d0 = Inr d'"
    "rules_of d' = rules_of (productions (cfg self)) \<union> rules_of ?d0" by blast
  then have r: "rules_of d' = rules_of (productions (cfg self))"
    by (simp add: rules_of_empty_bodies)
  let ?g = "\<lparr>variables = variables (cfg self), terminals = terminals (cfg self),
             productions = d', start_symbol = start_symbol (cfg self)\<rparr>"
  have e: "eliminate_epsilon_productions self = Inr (?g, self)"
    using n d'(1) by (simp add: eliminate_epsilon_productions_def)
  have l: "language ?g = language (cfg self)"
    by (simp add: language_def r)
  have ne: "'''' \<notin> set (snd item)" if "item \<in> set d'" for item
  proof
    assume "'''' \<in> set (snd item)"
    moreover from that have "(fst item, snd item) \<in> set d'" by simp
    ultimately have "(fst item, '''') \<in> rules_of d'"
      unfolding rules_of_def by blast
    with r obtain prods where "(fst item, prods) \<in> set (productions (cfg self))" "'''' \<in> set prods"
      by (auto simp: rules_of_def)
    with assms(1) show False by force
  qed
  from e l ne show ?thesis by auto
qed

theorem C7_epsilon_free_unchanged_witness:
  "fst ` set (productions abcd_grammar) \<subseteq> set (variables abcd_grammar)
   \<and> (\<exists>g. eliminate_epsilon_productions (CNFConverter_init abcd_grammar)
            = Inr (g, CNFConverter_init abcd_grammar)
          \<and> language g = language abcd_grammar
          \<and> start_symbol g = ''S'')"
proof -
  have a: "\<forall>item \<in> set (productions (cfg (CNFConverter_init abcd_grammar))). '''' \<notin> set (snd item)"
    by (simp add: CNFConverter_init_def abcd_grammar_def)
  have b: "fst ` set (productions (cfg (CNFConverter_init abcd_grammar)))
      \<subseteq> set (variables (cfg (CNFConverter_init abcd_grammar)))"
    by (simp add: CNFConverter_init_def abcd_grammar_def)
  have c: "cfg (CNFConverter_init abcd_grammar) = abcd_grammar"
    by (simp add: CNFConverter_init_def)
  have d: "start_symbol abcd_grammar = ''S''" by (simp add: abcd_grammar_def)
  from C7_epsilon_free_unchanged [OF a b] b show ?thesis
    unfolding c d by blast
qed

section \<open>The pipelines on input that is not well-formed\<close>

text \<open>
  Neither constructor checks anything, and no stage looks at the start symbol but to
  ask whether it is nullable. What the conversion needs in order to return is that
  every key of \<open>productions\<close> is in \<open>variables\<close>: otherwise line 119 reads
  \<open>new_productions[var]\<close> at a key that is not there.
\<close>

lemma for_each_inv:
  assumes "I s" and "\<And>x t. x \<in> set xs \<Longrightarrow> I t \<Longrightarrow> \<exists>t'. body x t = Inr t' \<and> I t'"
  shows "\<exists>s'. for_each body xs s = Inr s' \<and> I s'"
  using assms
proof (induction xs arbitrary: s)
  case Nil
  then show ?case by simp
next
  case (Cons x xs)
  from Cons.prems(2) [of x s] Cons.prems(1) obtain t where t: "body x s = Inr t" "I t" by auto
  have "\<exists>s'. for_each body xs t = Inr s' \<and> I s'"
  proof (rule Cons.IH [OF t(2)])
    fix y u assume "y \<in> set xs" "I u"
    then show "\<exists>t'. body y u = Inr t' \<and> I t'" using Cons.prems(2) [of y u] by simp
  qed
  with t(1) show ?case by simp
qed

lemma for_each_keys:
  assumes "\<And>x t. x \<in> set xs \<Longrightarrow> fst ` set t = K \<Longrightarrow>
             \<exists>t'. body x t = Inr t' \<and> fst ` set t' = K"
    and "fst ` set d = K"
  shows "\<exists>d'. for_each body xs d = Inr d' \<and> fst ` set d' = K"
  using assms(2) assms(1) by (rule for_each_inv [where I = "\<lambda>t. fst ` set t = K"])

lemma append_new_total:
  assumes "k \<in> fst ` set d"
  shows "\<exists>d'. append_new k v d = Inr d' \<and> fst ` set d' = fst ` set d"
proof -
  from assms obtain vs where "map_of d k = Some vs"
    by (cases "map_of d k") (auto simp: map_of_eq_None_iff)
  with assms show ?thesis
    by (auto simp: append_new_def getitem_def setitem_def dom_update)
qed

lemma append_item_total:
  assumes "k \<in> fst ` set d"
  shows "\<exists>d'. append_item k v d = Inr d' \<and> fst ` set d' = fst ` set d"
proof -
  from assms obtain vs where "map_of d k = Some vs"
    by (cases "map_of d k") (auto simp: map_of_eq_None_iff)
  with assms show ?thesis
    by (auto simp: append_item_def getitem_def setitem_def dom_update)
qed

lemma getitem_total: "k \<in> fst ` set d \<Longrightarrow> \<exists>v. getitem d k = Inr v"
  by (cases "map_of d k") (auto simp: getitem_def map_of_eq_None_iff)

lemma generate_new_variable_cfg:
  "cfg (snd (generate_new_variable self)) = cfg self \<and>
   terminal_to_var (snd (generate_new_variable self)) = terminal_to_var self"
proof (induction self rule: generate_new_variable.induct)
  case (1 self)
  show ?case
  proof (cases "''X'' @ str_nat (new_var_counter self) \<in> set (variables (cfg self))")
    case True
    with 1 show ?thesis by (simp add: generate_new_variable.simps [of self])
  next
    case False
    then show ?thesis by (simp add: generate_new_variable.simps [of self])
  qed
qed

subsection \<open>Stage 1 returns\<close>

lemma add_combination_total:
  assumes "var \<in> fst ` set d"
  shows "\<exists>d'. add_combination var prd nullable i d = Inr d' \<and> fst ` set d' = fst ` set d"
  using append_new_total [OF assms] by (auto simp: add_combination_def Let_def)

lemma expand_production_total:
  assumes "var \<in> fst ` set d"
  shows "\<exists>d'. expand_production var nullable prd d = Inr d' \<and> fst ` set d' = fst ` set d"
proof (cases "prd = ''''")
  case True
  then show ?thesis by (simp add: expand_production_def)
next
  case False
  have "\<exists>d'. for_each (add_combination var prd nullable)
            [0..<2 ^ length (nullable_indices prd nullable)] d = Inr d' \<and>
          fst ` set d' = fst ` set d"
  proof (rule for_each_keys)
    fix i and t :: "(string \<times> string list) list"
    assume t: "fst ` set t = fst ` set d"
    with assms have "var \<in> fst ` set t" by simp
    from add_combination_total [OF this, of prd nullable i] t
    show "\<exists>t'. add_combination var prd nullable i t = Inr t' \<and> fst ` set t' = fst ` set d"
      by simp
  qed simp
  with False show ?thesis by (simp add: expand_production_def)
qed

lemma expand_variable_total:
  assumes "fst item \<in> fst ` set d"
  shows "\<exists>d'. expand_variable nullable item d = Inr d' \<and> fst ` set d' = fst ` set d"
  unfolding expand_variable_def
proof (rule for_each_keys)
  fix prd and t :: "(string \<times> string list) list"
  assume t: "fst ` set t = fst ` set d"
  with assms have "fst item \<in> fst ` set t" by simp
  from expand_production_total [OF this, of nullable prd] t
  show "\<exists>t'. expand_production (fst item) nullable prd t = Inr t' \<and> fst ` set t' = fst ` set d"
    by simp
qed simp

lemma epsilon_total:
  assumes "fst ` set (productions (cfg self)) \<subseteq> set (variables (cfg self))"
  shows "\<exists>g self1. eliminate_epsilon_productions self = Inr (g, self1) \<and>
           productions (cfg self1) = productions (cfg self) \<and>
           start_symbol (cfg self1) = start_symbol (cfg self) \<and>
           set (variables (cfg self)) \<subseteq> set (variables (cfg self1))"
proof -
  let ?n = "compute_nullable (productions (cfg self)) []"
  let ?d0 = "map (\<lambda>var. (var, [] :: string list)) (variables (cfg self))"
  have k0: "fst ` set ?d0 = set (variables (cfg self))" by force
  have "\<exists>d'. for_each (expand_variable ?n) (productions (cfg self)) ?d0 = Inr d' \<and>
          fst ` set d' = fst ` set ?d0"
  proof (rule for_each_keys)
    fix x :: "string \<times> string list" and t :: "(string \<times> string list) list"
    assume x: "x \<in> set (productions (cfg self))" and t: "fst ` set t = fst ` set ?d0"
    from x have "fst x \<in> fst ` set (productions (cfg self))" by simp
    with assms k0 t have "fst x \<in> fst ` set t" by auto
    from expand_variable_total [OF this, of ?n] obtain t'
      where "expand_variable ?n x t = Inr t'" "fst ` set t' = fst ` set t" by blast
    with t have "expand_variable ?n x t = Inr t' \<and> fst ` set t' = fst ` set ?d0"
      by simp
    then show "\<exists>t'. expand_variable ?n x t = Inr t' \<and> fst ` set t' = fst ` set ?d0" ..
  qed (rule refl)
  then obtain d' where d': "for_each (expand_variable ?n) (productions (cfg self)) ?d0 = Inr d'"
    by blast
  show ?thesis
  proof (cases "start_symbol (cfg self) \<in> set ?n")
    case False
    with d' show ?thesis by (simp add: eliminate_epsilon_productions_def)
  next
    case True
    obtain new_start self1 where g: "generate_new_variable self = (new_start, self1)"
      by (cases "generate_new_variable self")
    with generate_new_variable_cfg [of self] have c: "cfg self1 = cfg self" by simp
    from True d' g c show ?thesis
      by (auto simp: eliminate_epsilon_productions_def Let_def set_add_def)
  qed
qed
subsection \<open>Stage 2 returns\<close>

lemma unit_prod_total:
  assumes "A \<in> fst ` set (fst st)"
  shows "\<exists>st'. unit_prod vars A prd st = Inr st' \<and> fst ` set (fst st') = fst ` set (fst st)"
proof -
  obtain up changed where st: "st = (up, changed)" by (cases st)
  with assms obtain s where "map_of up A = Some s"
    by (cases "map_of up A") (auto simp: map_of_eq_None_iff)
  with assms st show ?thesis
    by (auto simp: unit_prod_def getitem_def setitem_def dom_update)
qed

lemma for_each_fst_keys:
  fixes s :: "('k \<times> 'v) list \<times> 'c"
  assumes "\<And>x t. x \<in> set xs \<Longrightarrow> fst ` set (fst t) = K \<Longrightarrow>
             \<exists>t'. body x t = Inr t' \<and> fst ` set (fst t') = K"
    and "fst ` set (fst s) = K"
  shows "\<exists>s'. for_each body xs s = Inr s' \<and> fst ` set (fst s') = K"
  using assms(2) assms(1) by (rule for_each_inv [where I = "\<lambda>t. fst ` set (fst t) = K"])

lemma unit_B_total:
  fixes st :: "(string \<times> string list) list \<times> bool"
  assumes "A \<in> fst ` set (fst st)"
  shows "\<exists>st'. unit_B prods vars A B st = Inr st' \<and> fst ` set (fst st') = fst ` set (fst st)"
  unfolding unit_B_def
proof (rule for_each_fst_keys)
  fix prd and t :: "(string \<times> string list) list \<times> bool"
  assume t: "fst ` set (fst t) = fst ` set (fst st)"
  with assms have "A \<in> fst ` set (fst t)" by simp
  from unit_prod_total [OF this, of vars prd] t
  show "\<exists>t'. unit_prod vars A prd t = Inr t' \<and> fst ` set (fst t') = fst ` set (fst st)"
    by simp
qed (rule refl)

lemma unit_A_total:
  fixes st :: "(string \<times> string list) list \<times> bool"
  assumes "A \<in> fst ` set (fst st)"
  shows "\<exists>st'. unit_A prods vars A st = Inr st' \<and> fst ` set (fst st') = fst ` set (fst st)"
proof -
  from getitem_total [OF assms] obtain s where s: "getitem (fst st) A = Inr s" by blast
  have "\<exists>st'. for_each (unit_B prods vars A) s st = Inr st' \<and>
          fst ` set (fst st') = fst ` set (fst st)"
  proof (rule for_each_fst_keys)
    fix B and t :: "(string \<times> string list) list \<times> bool"
    assume t: "fst ` set (fst t) = fst ` set (fst st)"
    with assms have "A \<in> fst ` set (fst t)" by simp
    from unit_B_total [OF this, of prods vars B] t
    show "\<exists>t'. unit_B prods vars A B t = Inr t' \<and> fst ` set (fst t') = fst ` set (fst st)"
      by simp
  qed (rule refl)
  with s show ?thesis by (simp add: unit_A_def)
qed

lemma unit_pass_total:
  assumes "set vars \<subseteq> fst ` set unit_pairs"
  shows "\<exists>up changed. unit_pass prods vars unit_pairs = Inr (up, changed) \<and>
           fst ` set up = fst ` set unit_pairs"
proof -
  have "\<exists>st'. for_each (unit_A prods vars) vars (unit_pairs, False) = Inr st' \<and>
          fst ` set (fst st') = fst ` set unit_pairs"
  proof (rule for_each_fst_keys)
    fix A and t :: "(string \<times> string list) list \<times> bool"
    assume A: "A \<in> set vars" and t: "fst ` set (fst t) = fst ` set unit_pairs"
    with assms have "A \<in> fst ` set (fst t)" by auto
    from unit_A_total [OF this, of prods vars] t
    show "\<exists>t'. unit_A prods vars A t = Inr t' \<and> fst ` set (fst t') = fst ` set unit_pairs"
      by simp
  qed simp
  then show ?thesis unfolding unit_pass_def by (metis prod.collapse)
qed

lemma unit_closure_total:
  "set vars \<subseteq> fst ` set unit_pairs \<Longrightarrow>
     \<exists>up. unit_closure prods vars unit_pairs = Inr up \<and> fst ` set up = fst ` set unit_pairs"
proof (induction prods vars unit_pairs rule: unit_closure.induct)
  case (1 prods vars unit_pairs)
  from unit_pass_total [OF "1.prems", of prods] obtain up changed where
    p: "unit_pass prods vars unit_pairs = Inr (up, changed)"
    "fst ` set up = fst ` set unit_pairs" by blast
  show ?case
  proof (cases changed)
    case False
    with p show ?thesis by (simp add: unit_closure.simps [of prods vars unit_pairs])
  next
    case True
    from "1.prems" p(2) have "set vars \<subseteq> fst ` set up" by simp
    from "1.IH" [OF p(1) refl True this] p True show ?thesis
      by (simp add: unit_closure.simps [of prods vars unit_pairs])
  qed
qed

lemma unit_add_prod_total:
  assumes "A \<in> fst ` set d"
  shows "\<exists>d'. unit_add_prod vars A prd d = Inr d' \<and> fst ` set d' = fst ` set d"
  using append_new_total [OF assms] by (auto simp: unit_add_prod_def)

lemma unit_add_B_total:
  fixes d :: "(string \<times> string list) list"
  assumes "A \<in> fst ` set d"
  shows "\<exists>d'. unit_add_B prods vars A B d = Inr d' \<and> fst ` set d' = fst ` set d"
  unfolding unit_add_B_def
proof (rule for_each_keys)
  fix prd and t :: "(string \<times> string list) list"
  assume t: "fst ` set t = fst ` set d"
  with assms have "A \<in> fst ` set t" by simp
  from unit_add_prod_total [OF this, of vars prd] t
  show "\<exists>t'. unit_add_prod vars A prd t = Inr t' \<and> fst ` set t' = fst ` set d" by simp
qed (rule refl)

lemma unit_add_A_total:
  fixes d :: "(string \<times> string list) list"
  assumes "A \<in> fst ` set d" "A \<in> fst ` set unit_pairs"
  shows "\<exists>d'. unit_add_A prods vars unit_pairs A d = Inr d' \<and> fst ` set d' = fst ` set d"
proof -
  from getitem_total [OF assms(2)] obtain s where s: "getitem unit_pairs A = Inr s" by blast
  have "\<exists>d'. for_each (unit_add_B prods vars A) s d = Inr d' \<and> fst ` set d' = fst ` set d"
  proof (rule for_each_keys)
    fix B and t :: "(string \<times> string list) list"
    assume t: "fst ` set t = fst ` set d"
    with assms have "A \<in> fst ` set t" by simp
    from unit_add_B_total [OF this, of prods vars B] t
    show "\<exists>t'. unit_add_B prods vars A B t = Inr t' \<and> fst ` set t' = fst ` set d" by simp
  qed (rule refl)
  with s show ?thesis by (simp add: unit_add_A_def)
qed

lemma unit_total:
  "\<exists>cfg1. eliminate_unit_productions self = Inr cfg1 \<and>
     variables cfg1 = variables (cfg self) \<and>
     start_symbol cfg1 = start_symbol (cfg self) \<and>
     fst ` set (productions cfg1) = set (variables (cfg self))"
proof -
  let ?vars = "variables (cfg self)"
  let ?prods = "productions (cfg self)"
  let ?up0 = "map (\<lambda>var. (var, [var])) ?vars"
  let ?d0 = "map (\<lambda>var. (var, [] :: string list)) ?vars"
  have k: "fst ` set ?up0 = set ?vars" "fst ` set ?d0 = set ?vars" by force+
  then have "set ?vars \<subseteq> fst ` set ?up0" by simp
  from unit_closure_total [OF this, of ?prods] k(1) obtain up where
    up: "unit_closure ?prods ?vars ?up0 = Inr up" "fst ` set up = set ?vars" by auto
  have "\<exists>d'. for_each (unit_add_A ?prods ?vars up) ?vars ?d0 = Inr d' \<and>
          fst ` set d' = set ?vars"
  proof (rule for_each_keys)
    fix A and t :: "(string \<times> string list) list"
    assume A: "A \<in> set ?vars" and t: "fst ` set t = set ?vars"
    then have "A \<in> fst ` set t" "A \<in> fst ` set up" using up(2) by simp_all
    from unit_add_A_total [OF this, of ?prods ?vars] t
    show "\<exists>t'. unit_add_A ?prods ?vars up A t = Inr t' \<and> fst ` set t' = set ?vars" by simp
  qed (rule k(2))
  then obtain d' where "for_each (unit_add_A ?prods ?vars up) ?vars ?d0 = Inr d'"
    "fst ` set d' = set ?vars" by blast
  with up(1) show ?thesis by (simp add: eliminate_unit_productions_def Let_def)
qed

lemma first_two_stages_total:
  assumes "fst ` set (productions (cfg self)) \<subseteq> set (variables (cfg self))"
  shows "\<exists>cfg1 self1. first_two_stages self = Inr (cfg1, self1) \<and>
           start_symbol cfg1 = start_symbol (cfg self) \<and>
           fst ` set (productions cfg1) = set (variables cfg1)"
proof -
  from epsilon_total [OF assms] obtain g self1 where
    e: "eliminate_epsilon_productions self = Inr (g, self1)"
    "start_symbol (cfg self1) = start_symbol (cfg self)" by blast
  from unit_total [of self1] obtain cfg1 where
    "eliminate_unit_productions self1 = Inr cfg1" "variables cfg1 = variables (cfg self1)"
    "start_symbol cfg1 = start_symbol (cfg self1)"
    "fst ` set (productions cfg1) = set (variables (cfg self1))" by blast
  with e show ?thesis by (simp add: first_two_stages_def)
qed
subsection \<open>Steps 3 and 4 return\<close>

definition locals_ok :: "string set \<Rightarrow> cnf_locals \<Rightarrow> bool" where
  "locals_ok K L \<longleftrightarrow>
     K \<subseteq> fst ` set (lproductions L) \<and> fst ` set (lproductions L) \<subseteq> set (lvariables L)"

lemma replace_symbol_total:
  assumes "locals_ok K (fst st)"
  shows "\<exists>st'. replace_symbol terms symbol st = Inr st' \<and> locals_ok K (fst st')"
proof -
  obtain L new_prod where st: "st = (L, new_prod)" by (cases st)
  with assms have ok: "locals_ok K L" by simp
  show ?thesis
  proof (cases "symbol \<in> set terms")
    case False
    with st ok show ?thesis by (simp add: replace_symbol_def)
  next
    case True
    show ?thesis
    proof (cases "has_key (terminal_to_var (lself L)) symbol")
      case hk: True
      then obtain v where "map_of (terminal_to_var (lself L)) symbol = Some v"
        by (auto simp: has_key_def)
      with True hk st ok show ?thesis
        by (simp add: replace_symbol_def getitem_def)
    next
      case hk: False
      obtain new_var self1 where g: "generate_new_variable (lself L) = (new_var, self1)"
        by (cases "generate_new_variable (lself L)")
      let ?L1 = "L\<lparr>lself := self1\<lparr>terminal_to_var :=
                                  setitem symbol new_var (terminal_to_var self1)\<rparr>,
                      lvariables := set_add new_var (lvariables L),
                      lproductions := setitem new_var [symbol] (lproductions L)\<rparr>"
      have "replace_symbol terms symbol st = Inr (?L1, new_prod @ new_var)"
        using True hk st g
        by (simp add: replace_symbol_def getitem_def setitem_def update_conv')
      moreover have "locals_ok K ?L1"
        using ok by (auto simp: locals_ok_def setitem_def dom_update set_add_def)
      ultimately show ?thesis by simp
    qed
  qed
qed

lemma isolate_prod_total:
  assumes "locals_ok K (fst st)"
  shows "\<exists>st'. isolate_prod terms prd st = Inr st' \<and> locals_ok K (fst st')"
proof -
  obtain L new_prods where st: "st = (L, new_prods)" by (cases st)
  with assms have ok: "locals_ok K L" by simp
  have "\<exists>t. for_each (replace_symbol terms) (map (\<lambda>c. [c]) prd) (L, '''') = Inr t \<and>
          locals_ok K (fst t)"
  proof (rule for_each_inv [where I = "\<lambda>t. locals_ok K (fst t)"])
    show "locals_ok K (fst (L, ''''))" using ok by simp
  next
    fix x and t :: "cnf_locals \<times> string"
    assume "locals_ok K (fst t)"
    then show "\<exists>t'. replace_symbol terms x t = Inr t' \<and> locals_ok K (fst t')"
      by (rule replace_symbol_total)
  qed
  then obtain L' new_prod where
    "for_each (replace_symbol terms) (map (\<lambda>c. [c]) prd) (L, '''') = Inr (L', new_prod)"
    "locals_ok K L'" by (metis prod.collapse)
  with st ok show ?thesis by (auto simp: isolate_prod_def Let_def)
qed

lemma add_isolated_total:
  assumes "locals_ok K L" "var \<in> K"
  shows "\<exists>L'. add_isolated var prd L = Inr L' \<and> locals_ok K L'"
proof -
  from assms have "var \<in> fst ` set (lproductions L)" by (auto simp: locals_ok_def)
  from append_new_total [OF this, of prd] obtain d where
    "append_new var prd (lproductions L) = Inr d" "fst ` set d = fst ` set (lproductions L)"
    by blast
  with assms(1) show ?thesis by (simp add: add_isolated_def locals_ok_def)
qed

lemma isolate_var_total:
  assumes "locals_ok K L" "fst item \<in> K"
  shows "\<exists>L'. isolate_var terms item L = Inr L' \<and> locals_ok K L'"
proof -
  have "\<exists>t. for_each (isolate_prod terms) (snd item) (L, []) = Inr t \<and> locals_ok K (fst t)"
  proof (rule for_each_inv [where I = "\<lambda>t. locals_ok K (fst t)"])
    show "locals_ok K (fst (L, []))" using assms(1) by simp
  next
    fix x and t :: "cnf_locals \<times> string list"
    assume "locals_ok K (fst t)"
    then show "\<exists>t'. isolate_prod terms x t = Inr t' \<and> locals_ok K (fst t')"
      by (rule isolate_prod_total)
  qed
  then obtain L1 new_prods where
    1: "for_each (isolate_prod terms) (snd item) (L, []) = Inr (L1, new_prods)"
    "locals_ok K L1" by (metis prod.collapse)
  have "\<exists>L'. for_each (add_isolated (fst item)) new_prods L1 = Inr L' \<and> locals_ok K L'"
  proof (rule for_each_inv [where I = "locals_ok K"])
    show "locals_ok K L1" by (rule 1(2))
  next
    fix x and t :: cnf_locals
    assume "locals_ok K t"
    then show "\<exists>t'. add_isolated (fst item) x t = Inr t' \<and> locals_ok K t'"
      using assms(2) by (rule add_isolated_total)
  qed
  with 1(1) show ?thesis by (simp add: isolate_var_def)
qed

definition chain_ok :: "string set \<Rightarrow> cnf_locals \<times> string \<Rightarrow> bool" where
  "chain_ok K st \<longleftrightarrow>
     K \<subseteq> fst ` set (lfinal_productions (fst st)) \<and>
     snd st \<in> fst ` set (lfinal_productions (fst st))"

lemma chain_step_total:
  assumes ok: "chain_ok K st" and prev: "i = 0 \<or> lprev_var (fst st) \<noteq> None"
  shows "\<exists>st'. chain_step prd i st = Inr st' \<and> chain_ok K st' \<and> lprev_var (fst st') \<noteq> None"
proof -
  obtain L current_var where st: "st = (L, current_var)" by (cases st)
  obtain next_var self1 where g: "generate_new_variable (lself L) = (next_var, self1)"
    by (cases "generate_new_variable (lself L)")
  let ?fp0 = "setitem next_var [] (lfinal_productions L)"
  have k0: "fst ` set ?fp0 = insert next_var (fst ` set (lfinal_productions L))"
    by (auto simp: setitem_def dom_update)
  from ok st have cur: "current_var \<in> fst ` set ?fp0" by (simp add: chain_ok_def k0)
  let ?first = "if i = 0
                then append_item current_var ([prd ! 0] @ next_var) ?fp0
                else (case lprev_var L of
                        None \<Rightarrow> Inl UnboundLocalError
                      | Some prev_var \<Rightarrow> append_item current_var (prev_var @ next_var) ?fp0)"
  have "\<exists>fp1. ?first = Inr fp1 \<and> fst ` set fp1 = fst ` set ?fp0"
  proof (cases "i = 0")
    case True
    with append_item_total [OF cur, of "[prd ! 0] @ next_var"] show ?thesis by simp
  next
    case False
    with prev st obtain pv where "lprev_var L = Some pv" by auto
    with False append_item_total [OF cur, of "pv @ next_var"] show ?thesis by simp
  qed
  then obtain fp1 where fp1: "?first = Inr fp1" "fst ` set fp1 = fst ` set ?fp0" by blast
  let ?second = "if i = length prd - 3
                 then append_item next_var
                        ([prd ! (length prd - 2)] @ [prd ! (length prd - 1)]) fp1
                 else Inr fp1"
  have nv: "next_var \<in> fst ` set fp1" by (simp add: fp1(2) k0)
  have "\<exists>fp2. ?second = Inr fp2 \<and> fst ` set fp2 = fst ` set fp1"
    using append_item_total [OF nv, of "[prd ! (length prd - 2)] @ [prd ! (length prd - 1)]"]
    by (cases "i = length prd - 3") simp_all
  then obtain fp2 where fp2: "?second = Inr fp2" "fst ` set fp2 = fst ` set fp1" by blast
  let ?L' = "L\<lparr>lself := self1, lvariables := set_add next_var (lvariables L),
                 lfinal_productions := fp2, lprev_var := Some next_var\<rparr>"
  have "chain_step prd i st = Inr (?L', next_var)"
    unfolding chain_step_def st using g fp1(1) fp2(1) by (simp add: Let_def)
  moreover have "chain_ok K (?L', next_var)"
    using ok st by (auto simp: chain_ok_def fp2(2) fp1(2) k0)
  ultimately show ?thesis by simp
qed

lemma chain_total:
  assumes "chain_ok K st"
  shows "\<exists>st'. for_each (chain_step prd) [0..<n] st = Inr st' \<and> chain_ok K st'"
proof (cases n)
  case 0
  with assms show ?thesis by simp
next
  case (Suc m)
  then have split: "[0..<n] = 0 # [1..<n]" by (simp add: upt_conv_Cons)
  from chain_step_total [OF assms, of 0 prd] obtain st1 where
    1: "chain_step prd 0 st = Inr st1" "chain_ok K st1" "lprev_var (fst st1) \<noteq> None" by auto
  have "\<exists>t. for_each (chain_step prd) [1..<n] st1 = Inr t \<and>
          (chain_ok K t \<and> lprev_var (fst t) \<noteq> None)"
  proof (rule for_each_inv [where I = "\<lambda>t. chain_ok K t \<and> lprev_var (fst t) \<noteq> None"])
    show "chain_ok K st1 \<and> lprev_var (fst st1) \<noteq> None" using 1 by simp
  next
    fix i :: nat and t :: "cnf_locals \<times> string"
    assume t: "chain_ok K t \<and> lprev_var (fst t) \<noteq> None"
    then have "chain_ok K t" "i = 0 \<or> lprev_var (fst t) \<noteq> None" by simp_all
    then show "\<exists>t'. chain_step prd i t = Inr t' \<and>
        (chain_ok K t' \<and> lprev_var (fst t') \<noteq> None)"
      by (rule chain_step_total)
  qed
  with 1(1) split show ?thesis by auto
qed

lemma binarize_prod_total:
  assumes "K \<subseteq> fst ` set (lfinal_productions L)" "var \<in> fst ` set (lfinal_productions L)"
  shows "\<exists>L'. binarize_prod var prd L = Inr L' \<and> K \<subseteq> fst ` set (lfinal_productions L') \<and>
           fst ` set (lfinal_productions L) \<subseteq> fst ` set (lfinal_productions L')"
proof (cases "length prd \<le> 2")
  case True
  from append_new_total [OF assms(2), of prd] obtain d where
    "append_new var prd (lfinal_productions L) = Inr d"
    "fst ` set d = fst ` set (lfinal_productions L)" by blast
  with True assms(1) show ?thesis by (simp add: binarize_prod_def)
next
  case False
  let ?K = "fst ` set (lfinal_productions L)"
  have "chain_ok ?K (L, var)" using assms(2) by (simp add: chain_ok_def)
  from chain_total [OF this, of prd "length prd - 2"] obtain L' cur where
    "for_each (chain_step prd) [0..<length prd - 2] (L, var) = Inr (L', cur)"
    "chain_ok ?K (L', cur)" by (metis prod.collapse)
  with False assms(1) show ?thesis by (auto simp: binarize_prod_def chain_ok_def)
qed

lemma binarize_var_total:
  assumes "K \<subseteq> fst ` set (lfinal_productions L)" "fst item \<in> K"
  shows "\<exists>L'. binarize_var item L = Inr L' \<and> K \<subseteq> fst ` set (lfinal_productions L')"
  unfolding binarize_var_def
proof (rule for_each_inv [where I = "\<lambda>t. K \<subseteq> fst ` set (lfinal_productions t)"])
  fix prd and t :: cnf_locals
  assume t: "K \<subseteq> fst ` set (lfinal_productions t)"
  with assms(2) have "fst item \<in> fst ` set (lfinal_productions t)" by blast
  from binarize_prod_total [OF t this, of prd]
  show "\<exists>t'. binarize_prod (fst item) prd t = Inr t' \<and> K \<subseteq> fst ` set (lfinal_productions t')"
    by blast
qed (rule assms(1))

lemma fold_setitem_keys:
  "fst ` set (fold (\<lambda>item d. setitem (fst item) (snd item) d) items d0)
     = fst ` set d0 \<union> fst ` set items"
  by (induction items arbitrary: d0) (auto simp: setitem_def dom_update)

lemma convert_total:
  assumes "fst ` set (productions (cfg self)) \<subseteq> set (variables (cfg self))"
  shows "\<exists>g self'. convert_to_cnf self = Inr (g, self') \<and>
           start_symbol g = start_symbol (cfg self)"
proof -
  from first_two_stages_total [OF assms] obtain cfg1 self1 where
    f: "first_two_stages self = Inr (cfg1, self1)"
    "start_symbol cfg1 = start_symbol (cfg self)"
    "fst ` set (productions cfg1) = set (variables cfg1)" by blast
  let ?K = "fst ` set (productions cfg1)"
  let ?L0 = "\<lparr>lself = self1, lvariables = variables cfg1,
              lproductions = fold (\<lambda>item d. setitem (fst item) (snd item) d)
                               (productions cfg1)
                               (map (\<lambda>var. (var, [] :: string list)) (variables cfg1)),
              lfinal_productions = [], lprev_var = None\<rparr>"
  have "fst ` set (map (\<lambda>var. (var, [] :: string list)) (variables cfg1)) = set (variables cfg1)"
    by force
  then have ok0: "locals_ok ?K ?L0"
    using f(3) by (simp add: locals_ok_def fold_setitem_keys)
  have "\<exists>L1. for_each (isolate_var (terminals cfg1)) (productions cfg1) ?L0 = Inr L1 \<and>
          locals_ok ?K L1"
  proof (rule for_each_inv [where I = "locals_ok ?K"])
    show "locals_ok ?K ?L0" by (rule ok0)
  next
    fix x and t :: cnf_locals
    assume "x \<in> set (productions cfg1)" "locals_ok ?K t"
    then show "\<exists>t'. isolate_var (terminals cfg1) x t = Inr t' \<and> locals_ok ?K t'"
      by (intro isolate_var_total) simp_all
  qed
  then obtain L1 where L1: "for_each (isolate_var (terminals cfg1)) (productions cfg1) ?L0 = Inr L1"
    "locals_ok ?K L1" by blast
  let ?K1 = "fst ` set (lproductions L1)"
  let ?L2 = "L1\<lparr>lfinal_productions := map (\<lambda>var. (var, [] :: string list)) (lvariables L1)\<rparr>"
  have "fst ` set (map (\<lambda>var. (var, [] :: string list)) (lvariables L1)) = set (lvariables L1)"
    by force
  with L1(2) have k2: "?K1 \<subseteq> fst ` set (lfinal_productions ?L2)"
    by (simp add: locals_ok_def)
  have "\<exists>L3. for_each binarize_var (lproductions L1) ?L2 = Inr L3 \<and>
          ?K1 \<subseteq> fst ` set (lfinal_productions L3)"
  proof (rule for_each_inv [where I = "\<lambda>t. ?K1 \<subseteq> fst ` set (lfinal_productions t)"])
    show "?K1 \<subseteq> fst ` set (lfinal_productions ?L2)" by (rule k2)
  next
    fix x and t :: cnf_locals
    assume "x \<in> set (lproductions L1)" "?K1 \<subseteq> fst ` set (lfinal_productions t)"
    then show "\<exists>t'. binarize_var x t = Inr t' \<and> ?K1 \<subseteq> fst ` set (lfinal_productions t')"
      by (intro binarize_var_total) simp_all
  qed
  then obtain L3 where "for_each binarize_var (lproductions L1) ?L2 = Inr L3" by blast
  with f(1,2) L1(1) show ?thesis by (simp add: convert_to_cnf_def Let_def)
qed
text \<open>An automaton whose only transition leads to q9, which is not one of its states.\<close>

definition dangling_dfa :: "(string, string) DFA" where
  "dangling_dfa =
     \<lparr>states = [''q0''], alphabet = [''a''], transitions = [((''q0'', ''a''), ''q9'')],
      start_state = ''q0'', final_states = []\<rparr>"

text \<open>
  Claim C9 as amended: malformed input is not rejected. Whenever every key of
  \<open>productions\<close> is in \<open>variables\<close>, \<open>convert_to_cnf\<close> returns a grammar, and its start
  symbol is the start symbol it was given, in \<open>variables\<close> or not; and \<open>minimize\<close> returns
  an automaton for every automaton, whatever states its transitions mention.
\<close>

theorem C9_no_validation:
  fixes D :: "(string, 'a) DFA"
  assumes "fst ` set (productions (cfg self)) \<subseteq> set (variables (cfg self))"
    and "distinct (map fst (transitions D))"
  shows "(\<exists>g self'. convert_to_cnf self = Inr (g, self') \<and>
            start_symbol g = start_symbol (cfg self))
       \<and> (\<exists>M. minimize D = Inr M)"
proof
  show "\<exists>g self'. convert_to_cnf self = Inr (g, self') \<and> start_symbol g = start_symbol (cfg self)"
    using assms(1) by (rule convert_total)
next
  from minimize_props [OF assms(2)] show "\<exists>M. minimize D = Inr M" by blast
qed

theorem C9_no_validation_witness:
  "start_symbol bad_start_grammar \<notin> set (variables bad_start_grammar)
   \<and> (\<exists>g self'. convert_to_cnf (CNFConverter_init bad_start_grammar) = Inr (g, self') \<and>
         start_symbol g = ''S'')
   \<and> ''q9'' \<notin> set (states dangling_dfa)
   \<and> (\<exists>M. minimize dangling_dfa = Inr M)"
proof -
  have a: "fst ` set (productions (cfg (CNFConverter_init bad_start_grammar)))
      \<subseteq> set (variables (cfg (CNFConverter_init bad_start_grammar)))"
    by (simp add: CNFConverter_init_def bad_start_grammar_def)
  have b: "distinct (map fst (transitions dangling_dfa))" by (simp add: dangling_dfa_def)
  have c: "start_symbol (cfg (CNFConverter_init bad_start_grammar)) = ''S''"
    by (simp add: CNFConverter_init_def bad_start_grammar_def)
  have d: "start_symbol bad_start_grammar \<notin> set (variables bad_start_grammar)"
    by (simp add: bad_start_grammar_def)
  have e: "''q9'' \<notin> set (states dangling_dfa)" by (simp add: dangling_dfa_def)
  from C9_no_validation [OF a b] d e show ?thesis unfolding c by blast
qed

end
